theory Spec2Isabelle
  imports Main "HOL-Library.Word"
begin

unbundle bit_operations_syntax

section \<open>Data model\<close>

text \<open>
  Modelled from the spec: the types \<open>_block\<close>, \<open>_bm\<close>, \<open>_bv\<close> and \<open>MRHS_system\<close>, whose
  declarations (\<open>mrhs.bm.h\<close>, \<open>mrhs.bv.h\<close>, \<open>mrhs.h\<close>) are not part of the sources at
  hand; the fields are those that \<open>mrhs.c\<close> reads and writes.  A \<open>_block\<close> is one machine
  word (64 bits) that holds a matrix row; a \<open>_bm\<close> is a bit matrix with its two dimensions
  and one block per row; an \<open>MRHS_system\<close> holds the number of blocks and two arrays of
  bit matrices, the coefficient side \<open>pM\<close> and the right-hand-side side \<open>pS\<close>.  Both
  arrays may be the null pointer, which is \<open>None\<close> here.

  C's \<open>int\<close> is \<open>int\<close>.  Loop counters and counts stay within the sizes of the arrays
  they run over; the sums over caller supplied numbers, which may leave the 32-bit range,
  are wrapped explicitly (\<open>c_int\<close> below).
\<close>

type_synonym block = "64 word"

abbreviation ONE :: block where "ONE \<equiv> 1"
abbreviation ZERO :: block where "ZERO \<equiv> 0"

record bm =
  nrows :: int
  ncols :: int
  rows :: "block list"

text \<open>A bit vector \<open>_bv\<close> of length n, as the sequence of its n bits.\<close>

type_synonym bv = "bool list"

record MRHS_system =
  nblocks :: int
  pM :: "bm list option"
  pS :: "bm list option"

section \<open>Memory accesses that can fail\<close>

datatype error = NullDereference | OutOfBounds

definition bind_err :: "error + 'a \<Rightarrow> ('a \<Rightarrow> error + 'b) \<Rightarrow> error + 'b" where
  "bind_err m f = (case m of Inl e \<Rightarrow> Inl e | Inr x \<Rightarrow> f x)"

definition array_get :: "'a list \<Rightarrow> nat \<Rightarrow> error + 'a" where
  "array_get xs i = (if i < length xs then Inr (xs ! i) else Inl OutOfBounds)"

definition array_set :: "'a list \<Rightarrow> nat \<Rightarrow> 'a \<Rightarrow> error + 'a list" where
  "array_set xs i v = (if i < length xs then Inr (xs[i := v]) else Inl OutOfBounds)"

definition ptr_get :: "'a list option \<Rightarrow> nat \<Rightarrow> error + 'a" where
  "ptr_get p i = (case p of None \<Rightarrow> Inl NullDereference | Some xs \<Rightarrow> array_get xs i)"

definition ptr_set :: "'a list option \<Rightarrow> nat \<Rightarrow> 'a \<Rightarrow> error + 'a list option" where
  "ptr_set p i v =
     (case p of None \<Rightarrow> Inl NullDereference
      | Some xs \<Rightarrow> bind_err (array_set xs i v) (\<lambda>ys. Inr (Some ys)))"

text \<open>
  A counting loop \<open>for (int i = 0; i < n; i++) body\<close> runs its body over the indices
  \<open>[0..<nat n]\<close> in order and stops at the first failing access.
\<close>

fun for_loop :: "nat list \<Rightarrow> (nat \<Rightarrow> 's \<Rightarrow> error + 's) \<Rightarrow> 's \<Rightarrow> error + 's" where
  "for_loop [] body s = Inr s"
| "for_loop (i # is) body s = bind_err (body i s) (for_loop is body)"

section \<open>Creating a bit matrix\<close>

text \<open>
  Modelled from the spec: \<open>create_bm\<close> of \<open>mrhs.bm.c\<close>, which is not part of the sources
  at hand.  The spec (4.C) gives \<open>create(nrows, ncols)\<close> as a zero-initialised bit matrix
  that fails only on allocation; allocation is taken to succeed.
\<close>

definition create_bm :: "int \<Rightarrow> int \<Rightarrow> bm" where
  "create_bm r c = \<lparr>nrows = r, ncols = c, rows = replicate (nat r) ZERO\<rparr>"

section \<open>Constructors\<close>

text \<open>
  \<open>calloc(nblocks, sizeof(_bm))\<close>: an array of nblocks zeroed structs.  A negative
  count converts to a size that no allocator serves, so the result is the null pointer.
\<close>

definition zeroed_bm :: bm where
  "zeroed_bm = \<lparr>nrows = 0, ncols = 0, rows = []\<rparr>"

definition calloc_bm :: "int \<Rightarrow> bm list option" where
  "calloc_bm n = (if n < 0 then None else Some (replicate (nat n) zeroed_bm))"

text \<open>The body of the loop of \<open>create_mrhs_variable\<close> (lines 50 and 51).\<close>

definition create_block ::
  "int \<Rightarrow> int list \<Rightarrow> int list \<Rightarrow> nat \<Rightarrow> MRHS_system \<Rightarrow> error + MRHS_system" where
  "create_block nr blocksizes rhscounts block system =
     bind_err (array_get blocksizes block) (\<lambda>l.
     bind_err (ptr_set (pM system) block (create_bm nr l)) (\<lambda>pM'.
     bind_err (array_get rhscounts block) (\<lambda>k.
     bind_err (ptr_set (pS system) block (create_bm k l)) (\<lambda>pS'.
     Inr (system\<lparr>pM := pM', pS := pS'\<rparr>)))))"

definition create_mrhs_variable ::
  "int \<Rightarrow> int \<Rightarrow> int list \<Rightarrow> int list \<Rightarrow> error + MRHS_system" where
  "create_mrhs_variable nr nb blocksizes rhscounts =
     (if nb = 0 then Inr \<lparr>nblocks = 0, pM = None, pS = None\<rparr>
      else for_loop [0..<nat nb] (create_block nr blocksizes rhscounts)
             \<lparr>nblocks = nb, pM = calloc_bm nb, pS = calloc_bm nb\<rparr>)"

text \<open>
  \<open>create_mrhs_fixed\<close> allocates two \<open>int\<close> arrays of nblocks cells with \<open>malloc\<close>,
  writes every cell, and hands them to \<open>create_mrhs_variable\<close>.  The cells start out
  indeterminate in C; they are zero here, and each is written before it is read.
\<close>

definition malloc_int :: "int \<Rightarrow> int list" where
  "malloc_int n = replicate (nat n) 0"

definition fixed_block ::
  "int \<Rightarrow> int \<Rightarrow> nat \<Rightarrow> int list \<times> int list \<Rightarrow> error + (int list \<times> int list)" where
  "fixed_block blocksize rhscount block arrs =
     bind_err (array_set (fst arrs) block blocksize) (\<lambda>blocksizes.
     bind_err (array_set (snd arrs) block rhscount) (\<lambda>rhscounts.
     Inr (blocksizes, rhscounts)))"

definition create_mrhs_fixed :: "int \<Rightarrow> int \<Rightarrow> int \<Rightarrow> int \<Rightarrow> error + MRHS_system" where
  "create_mrhs_fixed nr nb blocksize rhscount =
     bind_err (for_loop [0..<nat nb] (fixed_block blocksize rhscount)
                 (malloc_int nb, malloc_int nb))
       (\<lambda>arrs. create_mrhs_variable nr nb (fst arrs) (snd arrs))"

section \<open>Bit vector and bit matrix helpers\<close>

text \<open>
  The helpers of \<open>mrhs.bv.c\<close> and \<open>mrhs.bm.c\<close> that \<open>mrhs.c\<close> calls are not part of
  the sources at hand.  Each is modelled from the spec (section 4.C), on well-formed
  arguments; column \<open>col\<close> of a row is bit \<open>col\<close> of its block.
\<close>

text \<open>Modelled from the spec: \<open>create_bv\<close>, a zero vector of the given length.\<close>

definition create_bv :: "int \<Rightarrow> bv" where
  "create_bv n = replicate (nat n) False"

text \<open>Modelled from the spec: \<open>get_bit_bm\<close>, the bit at a row and a column, as a block.\<close>

definition get_bit_bm :: "bm \<Rightarrow> nat \<Rightarrow> nat \<Rightarrow> block" where
  "get_bit_bm m row col =
     (if row < length (rows m) \<and> bit (rows m ! row) col then ONE else ZERO)"

text \<open>Modelled from the spec: \<open>get_column_bm\<close> reads one bit per row across all rows.\<close>

definition get_column_bm :: "bm \<Rightarrow> nat \<Rightarrow> bv" where
  "get_column_bm m col = map (\<lambda>row. bit row col) (rows m)"

text \<open>
  Modelled from the spec: \<open>find_nonzero(bv, start)\<close>, the smallest index \<open>\<ge> start\<close>
  whose bit is 1, or \<open>-1\<close>.
\<close>

definition find_nonzero :: "bv \<Rightarrow> nat \<Rightarrow> int" where
  "find_nonzero v start =
     (case filter (\<lambda>i. v ! i) [start..<length v] of [] \<Rightarrow> - 1 | i # _ \<Rightarrow> int i)"

text \<open>
  Modelled from the spec: \<open>add_column_bm\<close> adds (XOR) a column vector into one column
  of the matrix, one bit per row.
\<close>

definition add_column_bm :: "bm \<Rightarrow> bv \<Rightarrow> nat \<Rightarrow> bm" where
  "add_column_bm m column col =
     m\<lparr>rows := map (\<lambda>r. if r < length column \<and> column ! r
                          then rows m ! r XOR push_bit col ONE else rows m ! r)
                    [0..<length (rows m)]\<rparr>"

text \<open>
  Modelled from the spec: \<open>add_constant_bm\<close> XORs the scalar \<open>rhs\<close> into one column of
  every row of the matrix.
\<close>

definition add_constant_bm :: "bm \<Rightarrow> block \<Rightarrow> nat \<Rightarrow> bm" where
  "add_constant_bm s rhs col = s\<lparr>rows := map (\<lambda>row. row XOR push_bit col rhs) (rows s)\<rparr>"

text \<open>
  Modelled from the spec: \<open>get_active_rows_bm\<close>, the vector of the rows that contain a 1
  in some column of the matrix.
\<close>

definition get_active_rows_bm :: "bm \<Rightarrow> bv" where
  "get_active_rows_bm m = map (\<lambda>row. take_bit (nat (ncols m)) row \<noteq> 0) (rows m)"

text \<open>Modelled from the spec: \<open>is_non_zero_bv\<close>, whether some bit of the vector is 1.\<close>

definition is_non_zero_bv :: "bv \<Rightarrow> bool" where
  "is_non_zero_bv v = (\<exists>b \<in> set v. b)"

text \<open>Modelled from the spec: \<open>or_bv\<close> ORs the second vector into the first.\<close>

definition or_bv :: "bv \<Rightarrow> bv \<Rightarrow> bv" where
  "or_bv a b = map (\<lambda>i. a ! i \<or> (i < length b \<and> b ! i)) [0..<length a]"

text \<open>
  Modelled from the spec: \<open>remove_rows_bm(bm, mask)\<close> keeps only the rows whose mask bit
  is 1 and renumbers them.
\<close>

definition remove_rows_bm :: "bm \<Rightarrow> bv \<Rightarrow> bm" where
  "remove_rows_bm m keep =
     (let kept = map fst (filter snd (zip (rows m) keep))
      in m\<lparr>nrows := int (length kept), rows := kept\<rparr>)"

text \<open>Modelled from the spec: \<open>clear_bm\<close> releases the rows of a matrix.\<close>

definition clear_bm :: "bm \<Rightarrow> bm" where
  "clear_bm m = zeroed_bm"

text \<open>
  Modelled from the spec: \<open>multiply_bv_x_bm\<close>, the product \<open>x\<cdot>M\<close> over GF(2): the sum
  (XOR) of the rows of M that x selects.
\<close>

definition multiply_bv_x_bm :: "bv \<Rightarrow> bm \<Rightarrow> block" where
  "multiply_bv_x_bm x m = foldr (XOR) (map fst (filter snd (zip (rows m) x))) ZERO"

subsection \<open>The pseudo-random source\<close>

text \<open>
  The generators draw from the process-wide source \<open>rand()\<close>.  It is a fixed sequence of
  numbers and the position of the next draw.
\<close>

type_synonym rng = "(nat \<Rightarrow> nat) \<times> nat"

definition rand :: "rng \<Rightarrow> nat \<times> rng" where
  "rand g = (fst g (snd g), (fst g, Suc (snd g)))"

text \<open>Modelled from the spec: \<open>random_bv\<close> draws every bit of the vector.\<close>

fun random_bits :: "nat \<Rightarrow> rng \<Rightarrow> bv \<times> rng" where
  "random_bits 0 g = ([], g)"
| "random_bits (Suc n) g =
     (let (d, g1) = rand g; (bs, g2) = random_bits n g1 in (odd d # bs, g2))"

definition random_bv :: "bv \<Rightarrow> rng \<Rightarrow> bv \<times> rng" where
  "random_bv v g = random_bits (length v) g"

text \<open>
  Modelled from the spec: \<open>ensure_block_in_bm(bm, v)\<close>: if \<open>v\<close> is not already a row of
  the matrix, a randomly chosen row is overwritten with \<open>v\<close>.  A matrix without rows has
  no row to choose and is left as it is.
\<close>

definition ensure_block_in_bm :: "bm \<Rightarrow> block \<Rightarrow> rng \<Rightarrow> bm \<times> rng" where
  "ensure_block_in_bm s v g =
     (if v \<in> set (rows s) \<or> rows s = [] then (s, g)
      else let (d, g1) = rand g
           in (s\<lparr>rows := (rows s)[d mod length (rows s) := v]\<rparr>, g1))"

section \<open>Random fillers\<close>

text \<open>
  The generators \<open>random_bm\<close>, \<open>random_and_bm\<close>, \<open>random_and_cols_bm\<close> and
  \<open>random_sparse_and_cols_bm\<close> are not part of the sources at hand; the AND fillers take
  them as parameters, each a function of the matrix, its extra arguments and the state
  of the random source.
\<close>

record 'g generators =
  random_bm :: "bm \<Rightarrow> 'g \<Rightarrow> bm \<times> 'g"
  random_and_bm :: "bm \<Rightarrow> 'g \<Rightarrow> bm \<times> 'g"
  random_and_cols_bm :: "bm \<Rightarrow> int \<Rightarrow> 'g \<Rightarrow> bm \<times> 'g"
  random_sparse_and_cols_bm :: "bm \<Rightarrow> int \<Rightarrow> int \<Rightarrow> 'g \<Rightarrow> bm \<times> 'g"

text \<open>
  A 32-bit \<open>int\<close>: the value a sum or difference has once it is stored, wrapping around
  as the machine does.
\<close>

definition c_int :: "int \<Rightarrow> int" where
  "c_int x = (x + 2147483648) mod 4294967296 - 2147483648"

definition int32 :: "int \<Rightarrow> bool" where
  "int32 x = (- 2147483648 \<le> x \<and> x < 2147483648)"

text \<open>
  One iteration of a filler loop: the M block is rewritten by \<open>fillM\<close>, then the S block
  by \<open>fillS\<close>.
\<close>

definition fill_block ::
  "(bm \<Rightarrow> 'g \<Rightarrow> bm \<times> 'g) \<Rightarrow> (bm \<Rightarrow> 'g \<Rightarrow> bm \<times> 'g) \<Rightarrow> nat \<Rightarrow> MRHS_system \<times> 'g
     \<Rightarrow> error + (MRHS_system \<times> 'g)" where
  "fill_block fillM fillS block st =
     bind_err (ptr_get (pM (fst st)) block) (\<lambda>M.
     let (M', g1) = fillM M (snd st) in
     bind_err (ptr_set (pM (fst st)) block M') (\<lambda>pM'.
     bind_err (ptr_get (pS (fst st)) block) (\<lambda>S.
     let (S', g2) = fillS S g1 in
     bind_err (ptr_set (pS (fst st)) block S') (\<lambda>pS'.
     Inr ((fst st)\<lparr>pM := pM', pS := pS'\<rparr>, g2)))))"

definition fill_mrhs_and ::
  "'g generators \<Rightarrow> MRHS_system \<Rightarrow> int \<Rightarrow> int \<Rightarrow> 'g \<Rightarrow> error + (MRHS_system \<times> 'g)" where
  "fill_mrhs_and G psystem k l g =
     (let m = nblocks psystem in
      if l > m \<or> l < 0 then Inr (psystem, g)
      else bind_err (ptr_get (pM psystem) 0) (\<lambda>M0.
        if c_int (c_int (k + m) - l) \<noteq> nrows M0 then Inr (psystem, g)
        else bind_err
          (for_loop [0..<nat (c_int (m - l))]
             (\<lambda>block. fill_block (\<lambda>M. random_and_cols_bm G M (c_int (k + int block)))
                                  (random_and_bm G) block)
             (psystem, g))
          (for_loop [nat (c_int (m - l))..<nat m]
             (fill_block (random_bm G) (random_and_bm G)))))"

definition fill_mrhs_and_sparse ::
  "'g generators \<Rightarrow> MRHS_system \<Rightarrow> int \<Rightarrow> int \<Rightarrow> int \<Rightarrow> 'g
     \<Rightarrow> error + (MRHS_system \<times> 'g)" where
  "fill_mrhs_and_sparse G psystem k l density g =
     (let m = nblocks psystem in
      if l > m \<or> l < 0 then Inr (psystem, g)
      else bind_err (ptr_get (pM psystem) 0) (\<lambda>M0.
        if c_int (c_int (k + m) - l) \<noteq> nrows M0 then Inr (psystem, g)
        else for_loop [0..<nat (nblocks psystem)]
               (\<lambda>block. fill_block
                  (\<lambda>M. random_sparse_and_cols_bm G M (c_int (k + int block)) density)
                  (random_and_bm G) block)
               (psystem, g)))"

section \<open>A solution that is certain to exist\<close>

definition ensure_block ::
  "bv \<Rightarrow> nat \<Rightarrow> MRHS_system \<times> rng \<Rightarrow> error + (MRHS_system \<times> rng)" where
  "ensure_block sol block st =
     bind_err (ptr_get (pM (fst st)) block) (\<lambda>M.
     let rhs = multiply_bv_x_bm sol M in
     bind_err (ptr_get (pS (fst st)) block) (\<lambda>S.
     let (S', g1) = ensure_block_in_bm S rhs (snd st) in
     bind_err (ptr_set (pS (fst st)) block S') (\<lambda>pS'.
     Inr ((fst st)\<lparr>pS := pS'\<rparr>, g1))))"

definition ensure_random_solution :: "MRHS_system \<Rightarrow> rng \<Rightarrow> error + (MRHS_system \<times> rng)" where
  "ensure_random_solution psystem g =
     (if nblocks psystem < 1 then Inr (psystem, g)
      else bind_err (ptr_get (pM psystem) 0) (\<lambda>M0.
        let (sol, g1) = random_bv (create_bv (nrows M0)) g
        in for_loop [0..<nat (nblocks psystem)] (ensure_block sol) (psystem, g1)))"

section \<open>The header of the textual format\<close>

text \<open>
  The stream is taken after lexing: a number that \<open>fscanf("%i")\<close> converts, or any other
  character.  \<open>scan_int\<close> is one \<open>fscanf(f, "%i", &x)\<close>: it consumes a number and
  stores it, or fails and consumes nothing.
\<close>

datatype token = Num int | Sym char

fun scan_int :: "token list \<Rightarrow> int option \<times> token list" where
  "scan_int (Num v # f) = (Some v, f)"
| "scan_int f = (None, f)"

definition calloc_int :: "int \<Rightarrow> int list" where
  "calloc_int n = replicate (nat n) 0"

text \<open>
  Lines 204 and 205: the two reads of one block.  A failed conversion leaves the cell
  as \<open>calloc\<close> made it.
\<close>

definition read_pair ::
  "nat \<Rightarrow> int list \<times> int list \<times> token list \<Rightarrow> error + (int list \<times> int list \<times> token list)" where
  "read_pair block st =
     (case st of (l, k, f) \<Rightarrow>
        let (r1, f1) = scan_int f in
        bind_err (case r1 of None \<Rightarrow> Inr l | Some v \<Rightarrow> array_set l block v) (\<lambda>l'.
        let (r2, f2) = scan_int f1 in
        bind_err (case r2 of None \<Rightarrow> Inr k | Some v \<Rightarrow> array_set k block v) (\<lambda>k'.
        Inr (l', k', f2))))"

text \<open>
  Lines 193 to 207 of \<open>read_mrhs_variable\<close>: the result is \<open>(n, m, l, k)\<close> as they stand
  when \<open>create_mrhs_variable(n, m, l, k)\<close> is called, and the rest of the stream.
\<close>

definition read_mrhs_header ::
  "token list \<Rightarrow> error + ((int \<times> int \<times> int list \<times> int list) \<times> token list)" where
  "read_mrhs_header f =
     (case scan_int f of
        (None, f1) \<Rightarrow> Inr ((0, 0, [], []), f1)
      | (Some n, f1) \<Rightarrow>
          (case scan_int f1 of
             (None, f2) \<Rightarrow> Inr ((n, 0, [], []), f2)
           | (Some m, f2) \<Rightarrow>
               bind_err (for_loop [0..<nat m] read_pair (calloc_int m, calloc_int m, f2))
                 (\<lambda>st. case st of (l, k, f3) \<Rightarrow> Inr ((n, m, l, k), f3))))"

text \<open>
  Lines 255 to 265 of \<open>write_mrhs_variable\<close>: the numbers the header prints, in order.
\<close>

definition write_pair :: "MRHS_system \<Rightarrow> nat \<Rightarrow> int list \<Rightarrow> error + int list" where
  "write_pair system block out =
     bind_err (ptr_get (pS system) block) (\<lambda>S. Inr (out @ [ncols S, nrows S]))"

definition write_mrhs_header :: "MRHS_system \<Rightarrow> error + int list" where
  "write_mrhs_header system =
     (if nblocks system = 0 then Inr []
      else bind_err (ptr_get (pM system) 0) (\<lambda>M0.
        for_loop [0..<nat (nblocks system)] (write_pair system)
          [nrows M0, nblocks system]))"

section \<open>Linear preprocessing\<close>

text \<open>
  One step of the inner loop of \<open>linear_substitution\<close> (lines 437 to 445), on the
  system and the running count.
\<close>

definition substitute_column ::
  "bv \<Rightarrow> block \<Rightarrow> nat \<Rightarrow> nat \<Rightarrow> nat \<Rightarrow> MRHS_system \<times> int \<Rightarrow> error + (MRHS_system \<times> int)" where
  "substitute_column column rhs pivot block col st =
     bind_err (ptr_get (pM (fst st)) block) (\<lambda>M.
       if get_bit_bm M pivot col = ONE then
         bind_err (ptr_set (pM (fst st)) block (add_column_bm M column col)) (\<lambda>pM'.
         bind_err (ptr_get (pS (fst st)) block) (\<lambda>S.
         bind_err (ptr_set (pS (fst st)) block (add_constant_bm S rhs col)) (\<lambda>pS'.
         Inr ((fst st)\<lparr>pM := pM', pS := pS'\<rparr>, snd st + 1))))
       else Inr st)"

text \<open>
  The loop over the columns of one block.  Its bound \<open>pM[block].ncols\<close> is read once:
  no step changes it (\<open>add_column_bm\<close> rewrites rows only).
\<close>

definition substitute_block ::
  "bv \<Rightarrow> block \<Rightarrow> nat \<Rightarrow> nat \<Rightarrow> MRHS_system \<times> int \<Rightarrow> error + (MRHS_system \<times> int)" where
  "substitute_block column rhs pivot block st =
     bind_err (ptr_get (pM (fst st)) block) (\<lambda>M.
       for_loop [0..<nat (ncols M)] (substitute_column column rhs pivot block) st)"

definition linear_substitution ::
  "MRHS_system \<Rightarrow> bv \<Rightarrow> block \<Rightarrow> error + (int \<times> MRHS_system)" where
  "linear_substitution system column rhs =
     (let pivot = find_nonzero column 0 in
      if pivot < 0 then Inr (0, system)
      else bind_err
             (for_loop [0..<nat (nblocks system)]
                (substitute_block column rhs (nat pivot)) (system, 0))
             (\<lambda>st. Inr (snd st, fst st)))"

text \<open>
  Lines 461 to 464 of \<open>remove_linear\<close>: one column of a block whose S has a single row.
  The column is a copy (\<open>get_column_bm\<close> returns a vector of its own), so the substitution
  does not change it while it runs.  The bound of the column loop, \<open>pM[block].ncols\<close>, is
  read once: no substitution changes a shape.
\<close>

definition remove_linear_column ::
  "nat \<Rightarrow> nat \<Rightarrow> MRHS_system \<times> int \<Rightarrow> error + (MRHS_system \<times> int)" where
  "remove_linear_column block col st =
     bind_err (ptr_get (pM (fst st)) block) (\<lambda>M.
     let column = get_column_bm M col in
     bind_err (ptr_get (pS (fst st)) block) (\<lambda>S.
     let rhs = get_bit_bm S 0 col in
     bind_err (linear_substitution (fst st) column rhs) (\<lambda>r.
     Inr (snd r, snd st + fst r))))"

definition remove_linear_block ::
  "nat \<Rightarrow> MRHS_system \<times> int \<Rightarrow> error + (MRHS_system \<times> int)" where
  "remove_linear_block block st =
     bind_err (ptr_get (pS (fst st)) block) (\<lambda>S.
       if nrows S = 1 then
         bind_err (ptr_get (pM (fst st)) block) (\<lambda>M.
           for_loop [0..<nat (ncols M)] (remove_linear_column block) st)
       else Inr st)"

definition remove_linear :: "MRHS_system \<Rightarrow> error + (int \<times> MRHS_system)" where
  "remove_linear system =
     bind_err (for_loop [0..<nat (nblocks system)] remove_linear_block (system, 0))
       (\<lambda>st. Inr (snd st, fst st))"

subsection \<open>Removing empty blocks\<close>

text \<open>
  Lines 490 and 491: one step of the loop that shifts the later blocks down.  The struct
  assignment copies the dimensions and the row pointer; the copy left behind past the
  live blocks is not looked at again, so the two cells are independent values here.
\<close>

definition shift_block ::
  "nat \<Rightarrow> bm list option \<times> bm list option \<Rightarrow> error + (bm list option \<times> bm list option)" where
  "shift_block nb arrs =
     bind_err (ptr_get (fst arrs) nb) (\<lambda>M.
     bind_err (ptr_set (fst arrs) (nb - 1) M) (\<lambda>pM'.
     bind_err (ptr_get (snd arrs) nb) (\<lambda>S.
     bind_err (ptr_set (snd arrs) (nb - 1) S) (\<lambda>pS'.
     Inr (pM', pS')))))"

text \<open>
  The first loop of \<open>remove_empty\<close> (lines 476 to 497), on the loop counter, the field
  \<open>nblocks\<close>, the two arrays and the mask of active rows.  Removing a block steps the
  counter back before the loop steps it forward, so the same index is looked at again.
\<close>

function remove_empty_loop ::
  "nat \<Rightarrow> int \<Rightarrow> bm list option \<times> bm list option \<Rightarrow> bv
     \<Rightarrow> error + (int \<times> (bm list option \<times> bm list option) \<times> bv)" where
  "remove_empty_loop block nb arrs active_rows =
     (if int block < nb then
        bind_err (ptr_get (fst arrs) block) (\<lambda>M.
          let active = get_active_rows_bm M in
          if is_non_zero_bv active
          then remove_empty_loop (Suc block) nb arrs (or_bv active_rows active)
          else
            bind_err (ptr_set (fst arrs) block (clear_bm M)) (\<lambda>pM1.
            bind_err (ptr_get (snd arrs) block) (\<lambda>S.
            bind_err (ptr_set (snd arrs) block (clear_bm S)) (\<lambda>pS1.
            bind_err (for_loop [Suc block..<nat nb] shift_block (pM1, pS1)) (\<lambda>arrs2.
            remove_empty_loop block (nb - 1) arrs2 active_rows)))))
      else Inr (nb, arrs, active_rows))"
  by pat_completeness auto
termination
  by (relation "measure (\<lambda>(block, nb, arrs, active_rows). nat (nb - int block))") auto

declare remove_empty_loop.simps [simp del]

text \<open>Line 500: the rows outside the mask are removed from one surviving block.\<close>

definition compact_block :: "bv \<Rightarrow> nat \<Rightarrow> bm list option \<Rightarrow> error + bm list option" where
  "compact_block active_rows block p =
     bind_err (ptr_get p block) (\<lambda>M. ptr_set p block (remove_rows_bm M active_rows))"

definition remove_empty :: "MRHS_system \<Rightarrow> error + (int \<times> MRHS_system)" where
  "remove_empty system =
     (let numblocks = nblocks system in
      bind_err (ptr_get (pM system) 0) (\<lambda>M0.
      let active_rows = create_bv (nrows M0) in
      bind_err (remove_empty_loop 0 (nblocks system) (pM system, pS system) active_rows)
        (\<lambda>r. case r of (nb, arrs, active_rows1) \<Rightarrow>
      bind_err (for_loop [0..<nat nb] (compact_block active_rows1) (fst arrs)) (\<lambda>pM'.
      Inr (numblocks - nb, \<lparr>nblocks = nb, pM = pM', pS = snd arrs\<rparr>)))))"

section \<open>Closed forms of the loops\<close>

subsection \<open>Substitution of a linear equation\<close>

text \<open>
  The row of a matrix at the pivot position; a position past the last row reads as zero,
  as \<open>get_bit_bm\<close> does.
\<close>

definition pivot_row :: "bm \<Rightarrow> nat \<Rightarrow> block" where
  "pivot_row M p = (if p < length (rows M) then rows M ! p else ZERO)"

text \<open>
  What the first j steps of the column loop have added so far: the value \<open>v\<close> shifted to
  every column below j in which the pivot row \<open>w\<close> has a 1.
\<close>

fun column_sum :: "block \<Rightarrow> block \<Rightarrow> nat \<Rightarrow> block" where
  "column_sum w v 0 = ZERO"
| "column_sum w v (Suc j) =
     (if bit w j then column_sum w v j XOR push_bit j v else column_sum w v j)"

text \<open>
  The M block after the first j columns were looked at: each row that the column vector
  selects has the columns chosen by the pivot row flipped.
\<close>

definition substituted_M :: "bv \<Rightarrow> nat \<Rightarrow> nat \<Rightarrow> bm \<Rightarrow> bm" where
  "substituted_M column p j M =
     M\<lparr>rows := map (\<lambda>r. if r < length column \<and> column ! r
                          then rows M ! r XOR column_sum (pivot_row M p) ONE j
                          else rows M ! r)
                    [0..<length (rows M)]\<rparr>"

text \<open>
  The S block after the first j columns were looked at: \<open>rhs\<close> is added to the chosen
  columns of every row.
\<close>

definition substituted_S :: "block \<Rightarrow> nat \<Rightarrow> nat \<Rightarrow> bm \<Rightarrow> bm \<Rightarrow> bm" where
  "substituted_S rhs p j M S =
     S\<lparr>rows := map (\<lambda>row. row XOR column_sum (pivot_row M p) rhs j) (rows S)\<rparr>"

text \<open>
  The number of columns below j of a block that have a 1 in the pivot row.
\<close>

definition substituted_count :: "nat \<Rightarrow> nat \<Rightarrow> bm \<Rightarrow> int" where
  "substituted_count p j M = int (length (filter (bit (pivot_row M p)) [0..<j]))"


text \<open>
  The arrays after the first i blocks were substituted, and the number of substitutions.
\<close>

definition substituted_Ms :: "bv \<Rightarrow> nat \<Rightarrow> nat \<Rightarrow> bm list \<Rightarrow> bm list" where
  "substituted_Ms column p i Ms =
     map (\<lambda>b. if b < i then substituted_M column p (nat (ncols (Ms ! b))) (Ms ! b) else Ms ! b)
       [0..<length Ms]"

definition substituted_Ss :: "block \<Rightarrow> nat \<Rightarrow> nat \<Rightarrow> bm list \<Rightarrow> bm list \<Rightarrow> bm list" where
  "substituted_Ss rhs p i Ms Ss =
     map (\<lambda>b. if b < i then substituted_S rhs p (nat (ncols (Ms ! b))) (Ms ! b) (Ss ! b)
               else Ss ! b)
       [0..<length Ss]"

definition substituted_total :: "nat \<Rightarrow> nat \<Rightarrow> bm list \<Rightarrow> int" where
  "substituted_total p i Ms =
     (\<Sum>b\<leftarrow>[0..<i]. substituted_count p (nat (ncols (Ms ! b))) (Ms ! b))"

subsection \<open>Zero columns and what substitution keeps\<close>

text \<open>
  A column of a matrix is zero when no row has its bit; a matrix is all-zero (the block is
  empty) when no row has a bit in any of its \<open>ncols\<close> columns.
\<close>

definition zero_column :: "bm \<Rightarrow> nat \<Rightarrow> bool" where
  "zero_column M c = (\<forall>row \<in> set (rows M). \<not> bit row c)"

definition all_zero_bm :: "bm \<Rightarrow> bool" where
  "all_zero_bm M = (\<forall>row \<in> set (rows M). take_bit (nat (ncols M)) row = 0)"

text \<open>
  What every step of \<open>remove_linear\<close> keeps: the number of matrices, their shapes, and
  on the M side the columns that are already zero.
\<close>

definition keeps_M :: "bm list \<Rightarrow> bm list \<Rightarrow> bool" where
  "keeps_M Ms Ms' \<longleftrightarrow>
     length Ms' = length Ms \<and>
     (\<forall>b < length Ms.
        nrows (Ms' ! b) = nrows (Ms ! b) \<and> ncols (Ms' ! b) = ncols (Ms ! b)
      \<and> length (rows (Ms' ! b)) = length (rows (Ms ! b))
      \<and> (\<forall>c. zero_column (Ms ! b) c \<longrightarrow> zero_column (Ms' ! b) c))"

definition keeps_S :: "bm list \<Rightarrow> bm list \<Rightarrow> bool" where
  "keeps_S Ss Ss' \<longleftrightarrow>
     length Ss' = length Ss \<and>
     (\<forall>b < length Ss.
        nrows (Ss' ! b) = nrows (Ss ! b) \<and> ncols (Ss' ! b) = ncols (Ss ! b)
      \<and> length (rows (Ss' ! b)) = length (rows (Ss ! b)))"

subsection \<open>Surviving blocks\<close>

text \<open>
  The blocks that survive \<open>remove_empty\<close>, in their order: the M matrices that are not
  all-zero, and the S matrices at the same positions.
\<close>

definition kept_M :: "bm list \<Rightarrow> bm list" where
  "kept_M Ms = filter (\<lambda>M. \<not> all_zero_bm M) Ms"

definition kept_S :: "bm list \<Rightarrow> bm list \<Rightarrow> bm list" where
  "kept_S Ms Ss = map snd (filter (\<lambda>p. \<not> all_zero_bm (fst p)) (zip Ms Ss))"

text \<open>
  The system-wide mask of active rows: the active rows of the given blocks, ORed into
  the start value one block after the other.
\<close>

definition active_mask :: "bv \<Rightarrow> bm list \<Rightarrow> bv" where
  "active_mask a Ms = foldl (\<lambda>a M. or_bv a (get_active_rows_bm M)) a Ms"

text \<open>
  An array after the shifting loop has run up to (not including) index u: the cells from
  b on hold their right neighbour.
\<close>

definition shift_upto :: "nat \<Rightarrow> nat \<Rightarrow> 'a list \<Rightarrow> 'a list" where
  "shift_upto b u xs =
     map (\<lambda>i. if b \<le> i \<and> Suc i < u then xs ! Suc i else xs ! i) [0..<length xs]"

subsection \<open>Elimination of the linear equations\<close>

text \<open>
  A column of a matrix as a vector over GF(2): the function from the row position to the
  bit, false past the last row.  Vectors are added position by position.
\<close>

definition column_of :: "bm \<Rightarrow> nat \<Rightarrow> nat \<Rightarrow> bool" where
  "column_of M c r \<longleftrightarrow> r < length (rows M) \<and> bit (rows M ! r) c"

definition vzero :: "nat \<Rightarrow> bool" where
  "vzero = (\<lambda>r. False)"

definition vadd :: "(nat \<Rightarrow> bool) \<Rightarrow> (nat \<Rightarrow> bool) \<Rightarrow> nat \<Rightarrow> bool" where
  "vadd u v = (\<lambda>r. u r \<noteq> v r)"

text \<open>
  The span of a set of vectors over GF(2): all finite sums of its members.
\<close>

inductive_set linear_span :: "(nat \<Rightarrow> bool) set \<Rightarrow> (nat \<Rightarrow> bool) set"
  for G :: "(nat \<Rightarrow> bool) set" where
  zero: "vzero \<in> linear_span G"
| add: "g \<in> G \<Longrightarrow> v \<in> linear_span G \<Longrightarrow> vadd g v \<in> linear_span G"

text \<open>
  The columns of the linear blocks, those whose S has exactly one row: the linear
  equations that \<open>remove_linear\<close> substitutes.
\<close>

definition linear_columns :: "nat \<Rightarrow> bm list \<Rightarrow> bm list \<Rightarrow> (nat \<Rightarrow> bool) set" where
  "linear_columns L Ms Ss =
     {column_of (Ms ! b) c | b c. b < L \<and> nrows (Ss ! b) = 1 \<and> c < nat (ncols (Ms ! b))}"

text \<open>
  The product of two bit vectors over GF(2), and the vectors x that solve a system: for
  every block the product \<open>x\<cdot>M\<^sub>i\<close> is a row of \<open>S\<^sub>i\<close>.
\<close>

definition dot_bv :: "bv \<Rightarrow> bv \<Rightarrow> bool" where
  "dot_bv x c = foldr (\<noteq>) (map (\<lambda>p. fst p \<and> snd p) (zip x c)) False"

definition solves :: "nat \<Rightarrow> bm list \<Rightarrow> bm list \<Rightarrow> bv \<Rightarrow> bool" where
  "solves L Ms Ss x = (\<forall>b < L. multiply_bv_x_bm x (Ms ! b) \<in> set (rows (Ss ! b)))"

text \<open>
  What holds between the system \<open>remove_linear\<close> started with and the system it has
  reached, for some set \<open>P\<close> of pivot rows and some set \<open>G\<close> of substituted columns:
  shapes and the blocks past \<open>nblocks\<close> are kept; solutions stay solutions; every column
  differs from the original one by a sum of substituted columns; the pivot rows are zero
  throughout M; a sum of substituted columns that is zero at every pivot row is zero; the
  substituted columns are sums of original columns of linear blocks; and the original
  columns at the positions covered so far are sums of substituted columns.
\<close>

definition reduced ::
  "nat \<Rightarrow> nat \<Rightarrow> bm list \<Rightarrow> bm list \<Rightarrow> (nat \<Rightarrow> nat \<Rightarrow> bool) \<Rightarrow> bm list \<Rightarrow> bm list \<Rightarrow> bool" where
  "reduced L n Ms0 Ss0 covered Ms Ss \<longleftrightarrow>
     keeps_M Ms0 Ms \<and> keeps_S Ss0 Ss
   \<and> (\<forall>b. L \<le> b \<longrightarrow> (b < length Ms0 \<longrightarrow> Ms ! b = Ms0 ! b)
                    \<and> (b < length Ss0 \<longrightarrow> Ss ! b = Ss0 ! b))
   \<and> (\<forall>x. length x = n \<longrightarrow> solves L Ms0 Ss0 x \<longrightarrow> solves L Ms Ss x)
   \<and> (\<exists>P G.
        (\<forall>b < L. \<forall>c < nat (ncols (Ms0 ! b)).
           vadd (column_of (Ms ! b) c) (column_of (Ms0 ! b) c) \<in> linear_span G)
      \<and> (\<forall>p \<in> P. \<forall>b < L. \<forall>c < nat (ncols (Ms0 ! b)). \<not> column_of (Ms ! b) c p)
      \<and> (\<forall>v \<in> linear_span G. (\<forall>p \<in> P. \<not> v p) \<longrightarrow> v = vzero)
      \<and> G \<subseteq> linear_span (linear_columns L Ms0 Ss0)
      \<and> (\<forall>b c. covered b c \<longrightarrow> column_of (Ms0 ! b) c \<in> linear_span G))"

section \<open>An example system\<close>

text \<open>
  A system with three rows and three blocks, used to instantiate the theorems: a block
  with two right-hand sides, a linear block (one right-hand side) and an empty block.
\<close>

definition example_Ms :: "bm list" where
  "example_Ms =
     [\<lparr>nrows = 3, ncols = 2, rows = [1, 3, 2]\<rparr>,
      \<lparr>nrows = 3, ncols = 1, rows = [1, 1, 0]\<rparr>,
      \<lparr>nrows = 3, ncols = 2, rows = [0, 0, 0]\<rparr>]"

definition example_Ss :: "bm list" where
  "example_Ss =
     [\<lparr>nrows = 2, ncols = 2, rows = [0, 3]\<rparr>,
      \<lparr>nrows = 1, ncols = 1, rows = [1]\<rparr>,
      \<lparr>nrows = 1, ncols = 2, rows = [0]\<rparr>]"

definition example_system :: MRHS_system where
  "example_system = \<lparr>nblocks = 3, pM = Some example_Ms, pS = Some example_Ss\<rparr>"

section \<open>Basic facts\<close>

lemma bind_err_Inl [simp]: "bind_err (Inl e) f = Inl e"
  by (simp add: bind_err_def)

lemma bind_err_Inr [simp]: "bind_err (Inr x) f = f x"
  by (simp add: bind_err_def)

lemma for_loop_append:
  "for_loop (xs @ ys) body s = bind_err (for_loop xs body s) (for_loop ys body)"
proof (induction xs arbitrary: s)
  case Nil
  show ?case by simp
next
  case (Cons i xs)
  show ?case
    by (cases "body i s") (simp_all add: Cons.IH)
qed

lemma for_loop_snoc:
  "for_loop [0..<Suc j] body s = bind_err (for_loop [0..<j] body s) (body j)"
proof -
  have "for_loop [j] body = body j"
  proof
    fix t
    show "for_loop [j] body t = body j t"
      by (cases "body j t") simp_all
  qed
  then show ?thesis
    by (simp add: for_loop_append)
qed

section \<open>The constructors\<close>

lemma create_loop:
  assumes "j \<le> m" "m \<le> length l" "m \<le> length k" "length Ms = m" "length Ss = m"
  shows "for_loop [0..<j] (create_block n l k) \<lparr>nblocks = nb, pM = Some Ms, pS = Some Ss\<rparr>
       = Inr \<lparr>nblocks = nb,
              pM = Some (map (\<lambda>i. create_bm n (l ! i)) [0..<j] @ drop j Ms),
              pS = Some (map (\<lambda>i. create_bm (k ! i) (l ! i)) [0..<j] @ drop j Ss)\<rparr>"
  using assms
proof (induction j)
  case 0
  show ?case by simp
next
  case (Suc j)
  have upd: "(xs @ drop j ys)[j := v] = xs @ v # drop (Suc j) ys"
    if "length xs = j" "j < length ys" for xs ys :: "bm list" and v
    using that by (simp add: list_update_append Cons_nth_drop_Suc [symmetric] del: upt_Suc)
  from Suc.prems have j: "j < length l" "j < length k" "j < length Ms" "j < length Ss"
    by simp_all
  have IH: "for_loop [0..<j] (create_block n l k) \<lparr>nblocks = nb, pM = Some Ms, pS = Some Ss\<rparr>
       = Inr \<lparr>nblocks = nb,
              pM = Some (map (\<lambda>i. create_bm n (l ! i)) [0..<j] @ drop j Ms),
              pS = Some (map (\<lambda>i. create_bm (k ! i) (l ! i)) [0..<j] @ drop j Ss)\<rparr>"
    using Suc by simp
  show ?case
    unfolding for_loop_snoc IH
    using j
    by (simp add: create_block_def array_get_def ptr_set_def array_set_def upd)
qed

lemma fixed_loop:
  assumes "j \<le> length bs" "j \<le> length rs"
  shows "for_loop [0..<j] (fixed_block l k) (bs, rs)
       = Inr (replicate j l @ drop j bs, replicate j k @ drop j rs)"
  using assms
proof (induction j)
  case 0
  show ?case by simp
next
  case (Suc j)
  have upd: "(replicate j v @ drop j ys)[j := v] = replicate (Suc j) v @ drop (Suc j) ys"
    if "j < length ys" for ys :: "int list" and v
    using that
    by (simp add: list_update_append Cons_nth_drop_Suc [symmetric] replicate_append_same)
  from Suc.prems have j: "j < length bs" "j < length rs"
    by simp_all
  have IH: "for_loop [0..<j] (fixed_block l k) (bs, rs)
       = Inr (replicate j l @ drop j bs, replicate j k @ drop j rs)"
    using Suc by simp
  show ?case
    unfolding for_loop_snoc IH
    using j
    by (simp add: fixed_block_def array_set_def upd del: replicate_Suc)
qed

text \<open>
  C8.  With \<open>nblocks = 0\<close>, \<open>create_mrhs_variable\<close> returns a system with no blocks whose
  M array and S array are both the null pointer, whatever the other arguments are.
\<close>

theorem create_mrhs_variable_zero_blocks:
  "create_mrhs_variable n 0 l k = Inr \<lparr>nblocks = 0, pM = None, pS = None\<rparr>"
  by (simp add: create_mrhs_variable_def)

text \<open>
  C7.  For \<open>n \<ge> 0\<close>, at least one block and size arrays that hold an entry for every
  block, \<open>create_mrhs_variable\<close> succeeds and every block i of the result has
  \<open>M\<^sub>i.nrows = n\<close>, \<open>M\<^sub>i.ncols = l\<^sub>i\<close>, \<open>S\<^sub>i.ncols = l\<^sub>i\<close> and \<open>S\<^sub>i.nrows = k\<^sub>i\<close>.
\<close>

theorem create_mrhs_variable_shapes:
  assumes "0 \<le> n" "1 \<le> nb" "nat nb \<le> length l" "nat nb \<le> length k"
  shows "\<exists>Ms Ss. create_mrhs_variable n nb l k = Inr \<lparr>nblocks = nb, pM = Some Ms, pS = Some Ss\<rparr>
           \<and> length Ms = nat nb \<and> length Ss = nat nb
           \<and> (\<forall>i < nat nb. nrows (Ms ! i) = n \<and> ncols (Ms ! i) = l ! i
                          \<and> ncols (Ss ! i) = l ! i \<and> nrows (Ss ! i) = k ! i)"
proof -
  let ?Z = "replicate (nat nb) zeroed_bm"
  have "for_loop [0..<nat nb] (create_block n l k) \<lparr>nblocks = nb, pM = Some ?Z, pS = Some ?Z\<rparr>
      = Inr \<lparr>nblocks = nb,
             pM = Some (map (\<lambda>i. create_bm n (l ! i)) [0..<nat nb] @ drop (nat nb) ?Z),
             pS = Some (map (\<lambda>i. create_bm (k ! i) (l ! i)) [0..<nat nb] @ drop (nat nb) ?Z)\<rparr>"
    using assms by (intro create_loop [where m = "nat nb"]) simp_all
  then have "create_mrhs_variable n nb l k
      = Inr \<lparr>nblocks = nb,
             pM = Some (map (\<lambda>i. create_bm n (l ! i)) [0..<nat nb]),
             pS = Some (map (\<lambda>i. create_bm (k ! i) (l ! i)) [0..<nat nb])\<rparr>"
    using assms by (simp add: create_mrhs_variable_def calloc_bm_def)
  then show ?thesis
    by (simp add: create_bm_def)
qed

theorem create_mrhs_variable_shapes_witness:
  "\<exists>Ms Ss. create_mrhs_variable 2 2 [3, 1] [4, 1]
             = Inr \<lparr>nblocks = 2, pM = Some Ms, pS = Some Ss\<rparr>
         \<and> length Ms = 2 \<and> length Ss = 2
         \<and> (\<forall>i < 2. nrows (Ms ! i) = 2 \<and> ncols (Ms ! i) = [3, 1] ! i
                    \<and> ncols (Ss ! i) = [3, 1] ! i \<and> nrows (Ss ! i) = [4, 1] ! i)"
  using create_mrhs_variable_shapes [of 2 2 "[3, 1]" "[4, 1]"] by simp

text \<open>
  C10.  \<open>create_mrhs_fixed(n, nblocks, l, k)\<close> returns what \<open>create_mrhs_variable\<close> returns
  on the two constant arrays of nblocks copies of l and of k: the same number of blocks
  and the same matrices, shapes and contents.
\<close>

theorem create_mrhs_fixed_is_variable:
  "create_mrhs_fixed n nb l k
     = create_mrhs_variable n nb (replicate (nat nb) l) (replicate (nat nb) k)"
proof -
  have "for_loop [0..<nat nb] (fixed_block l k) (malloc_int nb, malloc_int nb)
      = Inr (replicate (nat nb) l @ drop (nat nb) (malloc_int nb),
             replicate (nat nb) k @ drop (nat nb) (malloc_int nb))"
    by (rule fixed_loop) (simp_all add: malloc_int_def)
  then show ?thesis
    by (simp add: create_mrhs_fixed_def malloc_int_def)
qed

section \<open>Degenerate systems and refused fillers\<close>

text \<open>
  C5.  The claim is that \<open>remove_empty\<close> on the system without blocks returns 0 and never
  touches the null M array.  The code reads \<open>system->pM->nrows\<close> (line 474) before it
  looks at \<open>nblocks\<close>: on the empty system that \<open>create_mrhs_variable\<close> returns, this
  is a read through the null pointer.
\<close>

theorem remove_empty_null_system:
  "remove_empty \<lparr>nblocks = 0, pM = None, pS = None\<rparr> = Inl NullDereference"
  by (simp add: remove_empty_def ptr_get_def)

lemma c_int_shape: "\<exists>q. c_int x = x - 4294967296 * q"
proof -
  have "(x + 2147483648) mod 4294967296
      = (x + 2147483648) - 4294967296 * ((x + 2147483648) div 4294967296)"
    by (rule minus_mult_div_eq_mod [symmetric])
  then have "c_int x = x - 4294967296 * ((x + 2147483648) div 4294967296)"
    by (simp add: c_int_def)
  then show ?thesis ..
qed

lemma c_int_guard:
  assumes "int32 k" "int32 m" "0 \<le> l" "l \<le> m" "0 \<le> n" "int32 n" "k + m - l \<noteq> n"
  shows "c_int (c_int (k + m) - l) \<noteq> n"
proof
  define a where "a = c_int (k + m)"
  define b where "b = c_int (a - l)"
  assume "c_int (c_int (k + m) - l) = n"
  then have eq: "b = n"
    by (simp add: a_def b_def)
  obtain q where q: "a = k + m - 4294967296 * q"
    unfolding a_def using c_int_shape by blast
  obtain r where r: "b = a - l - 4294967296 * r"
    unfolding b_def using c_int_shape by blast
  define j where "j = q + r"
  have "k + m - l - n = 4294967296 * q + 4294967296 * r"
    using eq q r by linarith
  then have step: "k + m - l - n = 4294967296 * j"
    by (simp only: j_def distrib_left)
  have "- 4294967296 < k + m - l - n" "k + m - l - n < 4294967296"
    using assms unfolding int32_def by linarith+
  with step have "- 1 < j" "j < 1"
    by linarith+
  then have "j = 0"
    by linarith
  with step show False
    using assms(7) by simp
qed

text \<open>
  The guard of the AND fillers on a system that has a first block.  If \<open>l > nblocks\<close>,
  or \<open>l < 0\<close>, or \<open>k + nblocks - l\<close> differs from the row count \<open>pM[0].nrows\<close> (not
  negative, the numbers 32-bit \<open>int\<close>s), \<open>fill_mrhs_and\<close> and \<open>fill_mrhs_and_sparse\<close>
  return the system as it was, whatever the generators are.
\<close>

theorem fill_mrhs_and_refuses:
  assumes "l > nblocks sys \<or> l < 0 \<or>
           (\<exists>M0 Ms. pM sys = Some (M0 # Ms) \<and> 0 \<le> nrows M0 \<and> int32 (nrows M0)
              \<and> int32 k \<and> int32 (nblocks sys) \<and> k + nblocks sys - l \<noteq> nrows M0)"
  shows "fill_mrhs_and G sys k l g = Inr (sys, g)
       \<and> fill_mrhs_and_sparse G sys k l density g = Inr (sys, g)"
proof (cases "l > nblocks sys \<or> l < 0")
  case True
  then show ?thesis
    by (auto simp add: fill_mrhs_and_def fill_mrhs_and_sparse_def)
next
  case False
  with assms obtain M0 Ms where M: "pM sys = Some (M0 # Ms)"
    and n: "0 \<le> nrows M0" "int32 (nrows M0)" "int32 k" "int32 (nblocks sys)"
           "k + nblocks sys - l \<noteq> nrows M0"
    by blast
  from False have l: "0 \<le> l" "l \<le> nblocks sys"
    by simp_all
  have "c_int (c_int (k + nblocks sys) - l) \<noteq> nrows M0"
    using n l by (intro c_int_guard) simp_all
  then show ?thesis
    using False M
    by (simp add: fill_mrhs_and_def fill_mrhs_and_sparse_def ptr_get_def array_get_def)
qed


theorem fill_mrhs_and_refuses_witness:
  "(0 > nblocks \<lparr>nblocks = 1, pM = Some [create_bm 3 3], pS = Some [create_bm 4 3]\<rparr> \<or> (0::int) < 0 \<or>
     (\<exists>M0 Ms. pM \<lparr>nblocks = 1, pM = Some [create_bm 3 3], pS = Some [create_bm 4 3]\<rparr> = Some (M0 # Ms)
        \<and> 0 \<le> nrows M0 \<and> int32 (nrows M0) \<and> int32 5
        \<and> int32 (nblocks \<lparr>nblocks = 1, pM = Some [create_bm 3 3], pS = Some [create_bm 4 3]\<rparr>)
        \<and> 5 + nblocks \<lparr>nblocks = 1, pM = Some [create_bm 3 3], pS = Some [create_bm 4 3]\<rparr> - 0 \<noteq> nrows M0))
   \<and> fill_mrhs_and
         \<lparr>random_bm = (\<lambda>M g. (zeroed_bm, g)), random_and_bm = (\<lambda>M g. (zeroed_bm, g)),
          random_and_cols_bm = (\<lambda>M r g. (zeroed_bm, g)),
          random_sparse_and_cols_bm = (\<lambda>M r d g. (zeroed_bm, g))\<rparr>
         \<lparr>nblocks = 1, pM = Some [create_bm 3 3], pS = Some [create_bm 4 3]\<rparr> 5 0 ()
       = Inr (\<lparr>nblocks = 1, pM = Some [create_bm 3 3], pS = Some [create_bm 4 3]\<rparr>, ())
   \<and> fill_mrhs_and_sparse
         \<lparr>random_bm = (\<lambda>M g. (zeroed_bm, g)), random_and_bm = (\<lambda>M g. (zeroed_bm, g)),
          random_and_cols_bm = (\<lambda>M r g. (zeroed_bm, g)),
          random_sparse_and_cols_bm = (\<lambda>M r d g. (zeroed_bm, g))\<rparr>
         \<lparr>nblocks = 1, pM = Some [create_bm 3 3], pS = Some [create_bm 4 3]\<rparr> 5 0 2 ()
       = Inr (\<lparr>nblocks = 1, pM = Some [create_bm 3 3], pS = Some [create_bm 4 3]\<rparr>, ())"
  using fill_mrhs_and_refuses
    [where l = 0 and k = 5 and g = "()" and density = 2
       and sys = "\<lparr>nblocks = 1, pM = Some [create_bm 3 3], pS = Some [create_bm 4 3]\<rparr>"
       and G = "\<lparr>random_bm = (\<lambda>M g. (zeroed_bm, g)), random_and_bm = (\<lambda>M g. (zeroed_bm, g)),
          random_and_cols_bm = (\<lambda>M r g. (zeroed_bm, g)),
          random_sparse_and_cols_bm = (\<lambda>M r d g. (zeroed_bm, g))\<rparr>"]
  by (simp add: create_bm_def int32_def)

text \<open>
  C6.  The claim is that both fillers return without a mutation whenever \<open>l > nblocks\<close>,
  or \<open>l < 0\<close>, or \<open>k + nblocks - l\<close> differs from the row count, for every system.
  On the system without blocks that \<open>create_mrhs_variable\<close> returns, and \<open>l = 0\<close>, the
  first two tests of the guard (lines 113 and 141) are false and the third reads
  \<open>psystem->pM->nrows\<close> through the null pointer, for every \<open>k\<close>: the call does not return.
\<close>

theorem fill_mrhs_and_null_system:
  "fill_mrhs_and G \<lparr>nblocks = 0, pM = None, pS = None\<rparr> k 0 g = Inl NullDereference
   \<and> fill_mrhs_and_sparse G \<lparr>nblocks = 0, pM = None, pS = None\<rparr> k 0 density g
       = Inl NullDereference"
  by (simp add: fill_mrhs_and_def fill_mrhs_and_sparse_def ptr_get_def)

section \<open>The order of the header pairs\<close>

lemma read_pairs:
  assumes "length ps \<le> length l0" "length ps \<le> length k0"
  shows "for_loop [0..<length ps] read_pair
           (l0, k0, concat (map (\<lambda>p. [Num (fst p), Num (snd p)]) ps) @ rest)
       = Inr (map fst ps @ drop (length ps) l0, map snd ps @ drop (length ps) k0, rest)"
  using assms
proof (induction ps arbitrary: rest rule: rev_induct)
  case Nil
  show ?case by simp
next
  case (snoc p ps)
  have upd: "(xs @ drop j ys)[j := v] = xs @ v # drop (Suc j) ys"
    if "length xs = j" "j < length ys" for xs ys :: "int list" and v j
    using that by (simp add: list_update_append Cons_nth_drop_Suc [symmetric])
  from snoc.prems have len: "length ps < length l0" "length ps < length k0"
    by simp_all
  have IH: "for_loop [0..<length ps] read_pair
              (l0, k0, concat (map (\<lambda>p. [Num (fst p), Num (snd p)]) ps)
                         @ (Num (fst p) # Num (snd p) # rest))
          = Inr (map fst ps @ drop (length ps) l0, map snd ps @ drop (length ps) k0,
                 Num (fst p) # Num (snd p) # rest)"
    using snoc.IH [of "Num (fst p) # Num (snd p) # rest"] len by simp
  have "for_loop [0..<length (ps @ [p])] read_pair
          (l0, k0, concat (map (\<lambda>p. [Num (fst p), Num (snd p)]) (ps @ [p])) @ rest)
      = bind_err (for_loop [0..<length ps] read_pair
              (l0, k0, concat (map (\<lambda>p. [Num (fst p), Num (snd p)]) ps)
                         @ (Num (fst p) # Num (snd p) # rest))) (read_pair (length ps))"
    using for_loop_snoc [of "length ps" read_pair] by simp
  also have "\<dots> = Inr (map fst (ps @ [p]) @ drop (length (ps @ [p])) l0,
                      map snd (ps @ [p]) @ drop (length (ps @ [p])) k0, rest)"
    unfolding IH using len
    by (simp add: read_pair_def array_set_def upd)
  finally show ?case .
qed

lemma write_pairs:
  assumes "pS sys = Some Ss" "j \<le> length Ss"
  shows "for_loop [0..<j] (write_pair sys) out
       = Inr (out @ concat (map (\<lambda>S. [ncols S, nrows S]) (take j Ss)))"
  using assms(2)
proof (induction j)
  case 0
  show ?case by simp
next
  case (Suc j)
  then have IH: "for_loop [0..<j] (write_pair sys) out
       = Inr (out @ concat (map (\<lambda>S. [ncols S, nrows S]) (take j Ss)))"
    by simp
  from Suc.prems have "j < length Ss"
    by simp
  then show ?case
    unfolding for_loop_snoc IH
    by (simp add: write_pair_def assms(1) ptr_get_def array_get_def take_Suc_conv_app_nth)
qed

lemma read_mrhs_header_Num:
  "read_mrhs_header (Num n # Num m # f)
     = bind_err (for_loop [0..<nat m] read_pair (calloc_int m, calloc_int m, f))
         (\<lambda>st. case st of (l, k, f3) \<Rightarrow> Inr ((n, m, l, k), f3))"
  by (simp add: read_mrhs_header_def)

text \<open>
  C9, as the code has it.  The reader stores the first number of each block's pair in
  \<open>l\<close> and the second in \<open>k\<close> (lines 204 and 205), which is the order in which the
  writer prints them (\<open>S\<^sub>i.ncols\<close> then \<open>S\<^sub>i.nrows\<close>): reading the header that
  \<open>write_mrhs_variable\<close> prints for a system gives back its row count, its number of
  blocks, \<open>l\<^sub>i = S\<^sub>i.ncols\<close> and \<open>k\<^sub>i = S\<^sub>i.nrows\<close>.
\<close>

theorem read_header_of_written_header:
  assumes "1 \<le> nblocks sys" "pM sys = Some (M0 # Ms)" "pS sys = Some Ss"
    "nat (nblocks sys) \<le> length Ss"
  shows "\<exists>out. write_mrhs_header sys = Inr out
           \<and> read_mrhs_header (map Num out @ rest)
             = Inr ((nrows M0, nblocks sys,
                     map ncols (take (nat (nblocks sys)) Ss),
                     map nrows (take (nat (nblocks sys)) Ss)), rest)"
proof -
  define live where "live = take (nat (nblocks sys)) Ss"
  define ps where "ps = map (\<lambda>S. (ncols S, nrows S)) live"
  define body where "body = concat (map (\<lambda>S. [ncols S, nrows S]) live)"
  have len: "length ps = nat (nblocks sys)"
    using assms(4) by (simp add: ps_def live_def)
  have w: "write_mrhs_header sys = Inr ([nrows M0, nblocks sys] @ body)"
    using assms write_pairs [OF assms(3) assms(4)]
    by (simp add: write_mrhs_header_def ptr_get_def array_get_def body_def live_def)
  have toks: "map Num body = concat (map (\<lambda>p. [Num (fst p), Num (snd p)]) ps)"
    by (simp add: body_def ps_def map_concat comp_def)
  have "for_loop [0..<length ps] read_pair
          (calloc_int (nblocks sys), calloc_int (nblocks sys),
           concat (map (\<lambda>p. [Num (fst p), Num (snd p)]) ps) @ rest)
      = Inr (map fst ps @ drop (length ps) (calloc_int (nblocks sys)),
             map snd ps @ drop (length ps) (calloc_int (nblocks sys)), rest)"
    using len by (intro read_pairs) (simp_all add: calloc_int_def)
  moreover have "map fst ps = map ncols live" "map snd ps = map nrows live"
    by (simp_all add: ps_def comp_def)
  ultimately have r: "for_loop [0..<nat (nblocks sys)] read_pair
          (calloc_int (nblocks sys), calloc_int (nblocks sys), map Num body @ rest)
      = Inr (map ncols live, map nrows live, rest)"
    using len by (simp add: calloc_int_def toks)
  have "map Num ([nrows M0, nblocks sys] @ body) @ rest
      = Num (nrows M0) # Num (nblocks sys) # (map Num body @ rest)"
    by simp
  then have "read_mrhs_header (map Num ([nrows M0, nblocks sys] @ body) @ rest)
      = Inr ((nrows M0, nblocks sys, map ncols live, map nrows live), rest)"
    by (simp only: read_mrhs_header_Num r bind_err_Inr prod.case)
  with w show ?thesis
    unfolding live_def by blast
qed

theorem read_header_of_written_header_witness:
  "\<exists>out. write_mrhs_header \<lparr>nblocks = 1, pM = Some [create_bm 2 3], pS = Some [create_bm 4 3]\<rparr>
            = Inr out
        \<and> read_mrhs_header (map Num out @ [Sym CHR ''['']) = Inr ((2, 1, [3], [4]), [Sym CHR ''['']) "
  using read_header_of_written_header
    [of "\<lparr>nblocks = 1, pM = Some [create_bm 2 3], pS = Some [create_bm 4 3]\<rparr>"
        "create_bm 2 3" "[]" "[create_bm 4 3]" "[Sym CHR ''['']"]
  by (simp add: create_bm_def)

text \<open>
  C9, as stated, says that the reader takes each pair as \<open>k\<^sub>i\<close> then \<open>l\<^sub>i\<close>, swapped
  against the writer.  For one block with a 4 by 3 matrix S the writer prints the pair
  3 4, and the reader ends with \<open>l = [3]\<close> and \<open>k = [4]\<close>, not with \<open>l = [4]\<close> and
  \<open>k = [3]\<close>.
\<close>

theorem read_order_counterexample:
  "write_mrhs_header \<lparr>nblocks = 1, pM = Some [create_bm 2 3], pS = Some [create_bm 4 3]\<rparr>
     = Inr [2, 1, 3, 4]
   \<and> read_mrhs_header (map Num [2, 1, 3, 4]) = Inr ((2, 1, [3], [4]), [])
   \<and> read_mrhs_header (map Num [2, 1, 3, 4]) \<noteq> Inr ((2, 1, [4], [3]), [])"
  by (simp add: write_mrhs_header_def write_pair_def read_mrhs_header_def read_pair_def
      ptr_get_def array_get_def array_set_def calloc_int_def create_bm_def)

section \<open>A system with a planted solution\<close>

lemma ensure_block_in_bm_member:
  assumes "rows s \<noteq> []"
  shows "v \<in> set (rows (fst (ensure_block_in_bm s v g)))"
proof (cases "v \<in> set (rows s)")
  case True
  then show ?thesis
    by (simp add: ensure_block_in_bm_def)
next
  case False
  from assms have "fst (rand g) mod length (rows s) < length (rows s)"
    by simp
  then have "v \<in> set ((rows s)[fst (rand g) mod length (rows s) := v])"
    by (rule set_update_memI)
  with False assms show ?thesis
    by (simp add: ensure_block_in_bm_def split_beta)
qed

lemma length_random_bits: "length (fst (random_bits n g)) = n"
  by (induction n arbitrary: g) (simp_all add: split_beta)

lemma ensure_loop:
  assumes "pM sys = Some Ms" "j \<le> length Ms" "j \<le> length Ss"
    "\<forall>i < j. rows (Ss ! i) \<noteq> []"
  shows "\<exists>Ss' g'. for_loop [0..<j] (ensure_block x) (sys\<lparr>pS := Some Ss\<rparr>, g)
                    = Inr (sys\<lparr>pS := Some Ss'\<rparr>, g')
           \<and> length Ss' = length Ss
           \<and> (\<forall>i < j. multiply_bv_x_bm x (Ms ! i) \<in> set (rows (Ss' ! i)))
           \<and> (\<forall>i. j \<le> i \<longrightarrow> Ss' ! i = Ss ! i)"
  using assms(2-)
proof (induction j)
  case 0
  show ?case by (intro exI [of _ Ss] exI [of _ g]) simp
next
  case (Suc j)
  then obtain Ss1 g1 where
    run: "for_loop [0..<j] (ensure_block x) (sys\<lparr>pS := Some Ss\<rparr>, g)
            = Inr (sys\<lparr>pS := Some Ss1\<rparr>, g1)"
    and len: "length Ss1 = length Ss"
    and prev: "\<forall>i < j. multiply_bv_x_bm x (Ms ! i) \<in> set (rows (Ss1 ! i))"
    and rest: "\<forall>i. j \<le> i \<longrightarrow> Ss1 ! i = Ss ! i"
    by force
  from Suc.prems have j: "j < length Ms" "j < length Ss" "rows (Ss ! j) \<noteq> []"
    by simp_all
  define r where "r = ensure_block_in_bm (Ss1 ! j) (multiply_bv_x_bm x (Ms ! j)) g1"
  have step: "ensure_block x j (sys\<lparr>pS := Some Ss1\<rparr>, g1)
        = Inr (sys\<lparr>pS := Some (Ss1[j := fst r])\<rparr>, snd r)"
    using j len
    by (simp add: ensure_block_def assms(1) ptr_get_def ptr_set_def array_get_def
        array_set_def split_beta r_def Let_def)
  have mem: "multiply_bv_x_bm x (Ms ! j) \<in> set (rows (fst r))"
    unfolding r_def using j(3) rest by (intro ensure_block_in_bm_member) simp
  have a: "\<forall>i < Suc j. multiply_bv_x_bm x (Ms ! i) \<in> set (rows (Ss1[j := fst r] ! i))"
    using prev mem j len by (auto simp add: less_Suc_eq nth_list_update)
  have b: "\<forall>i. Suc j \<le> i \<longrightarrow> Ss1[j := fst r] ! i = Ss ! i"
    using rest by simp
  have "for_loop [0..<Suc j] (ensure_block x) (sys\<lparr>pS := Some Ss\<rparr>, g)
      = Inr (sys\<lparr>pS := Some (Ss1[j := fst r])\<rparr>, snd r)"
    unfolding for_loop_snoc run using step by simp
  with a b len show ?case
    by (intro exI [of _ "Ss1[j := fst r]"] exI [of _ "snd r"]) simp
qed

text \<open>
  C1, as the code has it.  For a system with at least one block in which every \<open>S\<^sub>i\<close>
  has at least one row, \<open>ensure_random_solution\<close> succeeds, leaves M as it is, and the
  vector x it picked (n random bits, n the row count of the first block) has its product
  \<open>x\<cdot>M\<^sub>i\<close> among the rows of \<open>S\<^sub>i\<close> for every block i.
\<close>

theorem ensure_random_solution_has_solution:
  assumes "1 \<le> nblocks sys" "pM sys = Some Ms" "pS sys = Some Ss"
    "nat (nblocks sys) \<le> length Ms" "nat (nblocks sys) \<le> length Ss"
    "\<forall>i < nat (nblocks sys). rows (Ss ! i) \<noteq> []"
  shows "\<exists>Ss' g' x. ensure_random_solution sys g = Inr (sys\<lparr>pS := Some Ss'\<rparr>, g')
           \<and> x = fst (random_bv (create_bv (nrows (Ms ! 0))) g)
           \<and> length x = nat (nrows (Ms ! 0))
           \<and> length Ss' = length Ss
           \<and> (\<forall>i < nat (nblocks sys). multiply_bv_x_bm x (Ms ! i) \<in> set (rows (Ss' ! i)))"
proof -
  define x where "x = fst (random_bv (create_bv (nrows (Ms ! 0))) g)"
  define g1 where "g1 = snd (random_bv (create_bv (nrows (Ms ! 0))) g)"
  have sys: "sys\<lparr>pS := Some Ss\<rparr> = sys"
    using assms(3) by simp
  from assms(1,4) have pos: "0 < length Ms"
    by linarith
  have run: "ensure_random_solution sys g
      = for_loop [0..<nat (nblocks sys)] (ensure_block x) (sys\<lparr>pS := Some Ss\<rparr>, g1)"
    using assms(1,2) pos
    by (simp add: ensure_random_solution_def ptr_get_def array_get_def split_beta x_def g1_def sys Let_def)
  obtain Ss' g' where
    "for_loop [0..<nat (nblocks sys)] (ensure_block x) (sys\<lparr>pS := Some Ss\<rparr>, g1)
       = Inr (sys\<lparr>pS := Some Ss'\<rparr>, g')"
    "length Ss' = length Ss"
    "\<forall>i < nat (nblocks sys). multiply_bv_x_bm x (Ms ! i) \<in> set (rows (Ss' ! i))"
    using ensure_loop [OF assms(2) assms(4) assms(5) assms(6), of x g1] by blast
  moreover have "length x = nat (nrows (Ms ! 0))"
    by (simp add: x_def random_bv_def create_bv_def length_random_bits)
  ultimately show ?thesis
    unfolding run x_def by blast
qed

theorem ensure_random_solution_has_solution_witness:
  "\<exists>Ss' g' x. ensure_random_solution
        \<lparr>nblocks = 1, pM = Some [\<lparr>nrows = 2, ncols = 2, rows = [1, 2]\<rparr>],
         pS = Some [\<lparr>nrows = 1, ncols = 2, rows = [0]\<rparr>]\<rparr> (\<lambda>i. 1, 0)
       = Inr (\<lparr>nblocks = 1, pM = Some [\<lparr>nrows = 2, ncols = 2, rows = [1, 2]\<rparr>],
               pS = Some [\<lparr>nrows = 1, ncols = 2, rows = [0]\<rparr>]\<rparr>\<lparr>pS := Some Ss'\<rparr>, g')
     \<and> x = fst (random_bv (create_bv 2) (\<lambda>i. 1, 0)) \<and> length x = 2 \<and> length Ss' = 1
     \<and> multiply_bv_x_bm x \<lparr>nrows = 2, ncols = 2, rows = [1, 2]\<rparr> \<in> set (rows (Ss' ! 0))"
  using ensure_random_solution_has_solution
    [where sys = "\<lparr>nblocks = 1, pM = Some [\<lparr>nrows = 2, ncols = 2, rows = [1, 2]\<rparr>],
         pS = Some [\<lparr>nrows = 1, ncols = 2, rows = [0]\<rparr>]\<rparr>"
       and Ms = "[\<lparr>nrows = 2, ncols = 2, rows = [1, 2]\<rparr>]"
       and Ss = "[\<lparr>nrows = 1, ncols = 2, rows = [0]\<rparr>]" and g = "(\<lambda>i. 1, 0)"]
  by simp

text \<open>
  C1, as stated, covers every system with at least one block.  A block whose S has no
  row (\<open>k\<^sub>i = 0\<close>, which \<open>create_mrhs_variable\<close> builds) has no row to overwrite:
  S stays empty and no product can be among its rows.
\<close>

theorem ensure_random_solution_counterexample:
  "ensure_random_solution
        \<lparr>nblocks = 1, pM = Some [\<lparr>nrows = 1, ncols = 1, rows = [1]\<rparr>],
         pS = Some [\<lparr>nrows = 0, ncols = 1, rows = []\<rparr>]\<rparr> (\<lambda>i. i, 0)
     = Inr (\<lparr>nblocks = 1, pM = Some [\<lparr>nrows = 1, ncols = 1, rows = [1]\<rparr>],
             pS = Some [\<lparr>nrows = 0, ncols = 1, rows = []\<rparr>]\<rparr>, (\<lambda>i. i, 1))
   \<and> \<not> (\<exists>x. multiply_bv_x_bm x \<lparr>nrows = 1, ncols = 1, rows = [1]\<rparr>
               \<in> set (rows \<lparr>nrows = 0, ncols = 1, rows = []\<rparr>))"
  by (simp add: ensure_random_solution_def ensure_block_def ensure_block_in_bm_def
      ptr_get_def ptr_set_def array_get_def array_set_def random_bv_def create_bv_def rand_def
      Let_def)

section \<open>Substituting a linear equation\<close>

lemma bit_column_sum_one: "bit (column_sum w ONE j) c \<longleftrightarrow> c < j \<and> bit w c"
  by (induction j) (auto simp add: bit_simps less_Suc_eq dest: bit_imp_le_length)

lemma column_sum_zero: "column_sum w ZERO j = ZERO"
  by (induction j) simp_all

lemma substituted_M_0: "substituted_M column p 0 M = M"
  by (simp add: substituted_M_def map_nth cong: if_cong)

lemma substituted_S_0: "substituted_S rhs p 0 M S = S"
  by (simp add: substituted_S_def)

lemma length_rows_substituted_M [simp]:
  "length (rows (substituted_M column p j M)) = length (rows M)"
  by (simp add: substituted_M_def)

lemma get_bit_substituted_M:
  assumes "p < length column" "column ! p"
  shows "get_bit_bm (substituted_M column p j M) p j = ONE \<longleftrightarrow> bit (pivot_row M p) j"
  using assms
  by (simp add: get_bit_bm_def substituted_M_def pivot_row_def bit_simps bit_column_sum_one)

lemma add_column_substituted_M:
  assumes "bit (pivot_row M p) j"
  shows "add_column_bm (substituted_M column p j M) column j = substituted_M column p (Suc j) M"
  using assms
  by (simp add: add_column_bm_def substituted_M_def xor.assoc)

lemma skip_column_substituted_M:
  assumes "\<not> bit (pivot_row M p) j"
  shows "substituted_M column p (Suc j) M = substituted_M column p j M"
  using assms by (simp add: substituted_M_def)

lemma add_constant_substituted_S:
  assumes "bit (pivot_row M p) j"
  shows "add_constant_bm (substituted_S rhs p j M S) rhs j = substituted_S rhs p (Suc j) M S"
  using assms
  by (simp add: add_constant_bm_def substituted_S_def xor.assoc)

lemma skip_column_substituted_S:
  assumes "\<not> bit (pivot_row M p) j"
  shows "substituted_S rhs p (Suc j) M S = substituted_S rhs p j M S"
  using assms by (simp add: substituted_S_def)

lemma substitute_columns:
  assumes "b < length Ms" "b < length Ss" "p < length column" "column ! p"
  shows "for_loop [0..<j] (substitute_column column rhs p b)
           (sys\<lparr>pM := Some Ms, pS := Some Ss\<rparr>, cnt)
       = Inr (sys\<lparr>pM := Some (Ms[b := substituted_M column p j (Ms ! b)]),
                  pS := Some (Ss[b := substituted_S rhs p j (Ms ! b) (Ss ! b)])\<rparr>,
              cnt + substituted_count p j (Ms ! b))"
proof (induction j)
  case 0
  show ?case
    by (simp add: substituted_M_0 substituted_S_0 substituted_count_def)
next
  case (Suc j)
  show ?case
  proof (cases "bit (pivot_row (Ms ! b) p) j")
    case True
    then show ?thesis
      unfolding for_loop_snoc Suc.IH using assms
      by (simp add: substitute_column_def ptr_get_def ptr_set_def array_get_def array_set_def
          get_bit_substituted_M add_column_substituted_M add_constant_substituted_S
          substituted_count_def)
  next
    case False
    then show ?thesis
      unfolding for_loop_snoc Suc.IH using assms
      by (simp add: substitute_column_def ptr_get_def array_get_def
          get_bit_substituted_M skip_column_substituted_M skip_column_substituted_S
          substituted_count_def)
  qed
qed


lemma substitute_blocks:
  assumes "i \<le> length Ms" "i \<le> length Ss" "p < length column" "column ! p"
  shows "for_loop [0..<i] (substitute_block column rhs p)
           (sys\<lparr>pM := Some Ms, pS := Some Ss\<rparr>, 0)
       = Inr (sys\<lparr>pM := Some (substituted_Ms column p i Ms),
                  pS := Some (substituted_Ss rhs p i Ms Ss)\<rparr>,
              substituted_total p i Ms)"
  using assms(1,2)
proof (induction i)
  case 0
  show ?case
    by (simp add: substituted_Ms_def substituted_Ss_def substituted_total_def map_nth)
next
  case (Suc i)
  then have i: "i < length Ms" "i < length Ss"
    by simp_all
  let ?Ms = "substituted_Ms column p i Ms"
  let ?Ss = "substituted_Ss rhs p i Ms Ss"
  have IH: "for_loop [0..<i] (substitute_block column rhs p)
              (sys\<lparr>pM := Some Ms, pS := Some Ss\<rparr>, 0)
          = Inr (sys\<lparr>pM := Some ?Ms, pS := Some ?Ss\<rparr>, substituted_total p i Ms)"
    using Suc by simp
  have cur: "?Ms ! i = Ms ! i" "?Ss ! i = Ss ! i" "i < length ?Ms" "i < length ?Ss"
    using i by (simp_all add: substituted_Ms_def substituted_Ss_def)
  have M: "?Ms[i := substituted_M column p (nat (ncols (Ms ! i))) (Ms ! i)]
         = substituted_Ms column p (Suc i) Ms"
    by (rule nth_equalityI)
      (auto simp add: substituted_Ms_def nth_list_update less_Suc_eq)
  have S: "?Ss[i := substituted_S rhs p (nat (ncols (Ms ! i))) (Ms ! i) (Ss ! i)]
         = substituted_Ss rhs p (Suc i) Ms Ss"
    by (rule nth_equalityI)
      (auto simp add: substituted_Ss_def nth_list_update less_Suc_eq)
  have "substitute_block column rhs p i (sys\<lparr>pM := Some ?Ms, pS := Some ?Ss\<rparr>, substituted_total p i Ms)
      = for_loop [0..<nat (ncols (Ms ! i))] (substitute_column column rhs p i)
          (sys\<lparr>pM := Some ?Ms, pS := Some ?Ss\<rparr>, substituted_total p i Ms)"
    using cur by (simp add: substitute_block_def ptr_get_def array_get_def)
  also have "\<dots> = Inr (sys\<lparr>pM := Some (substituted_Ms column p (Suc i) Ms),
                             pS := Some (substituted_Ss rhs p (Suc i) Ms Ss)\<rparr>,
                        substituted_total p (Suc i) Ms)"
    using substitute_columns [OF cur(3) cur(4) assms(3) assms(4), of "nat (ncols (Ms ! i))" rhs sys
        "substituted_total p i Ms"]
    by (simp add: cur M S substituted_total_def)
  finally show ?case
    unfolding for_loop_snoc IH by simp
qed

lemma find_nonzero_none: "find_nonzero v 0 < 0 \<longleftrightarrow> \<not> is_non_zero_bv v"
proof -
  have "filter (\<lambda>i. v ! i) [0..<length v] = [] \<longleftrightarrow> (\<forall>b \<in> set v. \<not> b)"
    by (auto simp add: filter_empty_conv in_set_conv_nth)
  then show ?thesis
    by (auto simp add: find_nonzero_def is_non_zero_bv_def split: list.splits)
qed

lemma find_nonzero_first:
  assumes "\<not> find_nonzero v 0 < 0"
  shows "find_nonzero v 0 = int (nat (find_nonzero v 0))"
    and "nat (find_nonzero v 0) < length v"
    and "v ! nat (find_nonzero v 0)"
    and "\<forall>i < nat (find_nonzero v 0). \<not> v ! i"
proof -
  from assms obtain p ps where f: "filter (\<lambda>i. v ! i) [0..<length v] = p # ps"
    by (auto simp add: find_nonzero_def split: list.splits)
  then have p: "find_nonzero v 0 = int p"
    by (simp add: find_nonzero_def)
  from f obtain us vs where
    split: "[0..<length v] = us @ p # vs" and before: "\<forall>u \<in> set us. \<not> v ! u" and at: "v ! p"
    by (auto simp add: filter_eq_Cons_iff)
  have "p \<in> set [0..<length v]"
    unfolding split by simp
  then have len: "p < length v"
    by simp
  have "sorted_wrt (<) (us @ p # vs)"
    using sorted_wrt_upt [of 0 "length v"] unfolding split .
  then have later: "\<forall>w \<in> set vs. p < w"
    by (auto simp add: sorted_wrt_append)
  have "\<not> v ! i" if "i < p" for i
  proof -
    from that len have "i \<in> set (us @ p # vs)"
      unfolding split [symmetric] by simp
    with that later have "i \<in> set us"
      by auto
    with before show ?thesis
      by blast
  qed
  with p len at show "find_nonzero v 0 = int (nat (find_nonzero v 0))"
    "nat (find_nonzero v 0) < length v" "v ! nat (find_nonzero v 0)"
    "\<forall>i < nat (find_nonzero v 0). \<not> v ! i"
    by simp_all
qed

lemma linear_substitution_zero:
  assumes "\<not> is_non_zero_bv column"
  shows "linear_substitution sys column rhs = Inr (0, sys)"
  using assms by (simp add: linear_substitution_def find_nonzero_none [symmetric] Let_def)

lemma linear_substitution_eq:
  assumes "pM sys = Some Ms" "pS sys = Some Ss"
    "nat (nblocks sys) \<le> length Ms" "nat (nblocks sys) \<le> length Ss"
    "is_non_zero_bv column"
  shows "linear_substitution sys column rhs
       = Inr (substituted_total (nat (find_nonzero column 0)) (nat (nblocks sys)) Ms,
              sys\<lparr>pM := Some (substituted_Ms column (nat (find_nonzero column 0))
                                 (nat (nblocks sys)) Ms),
                  pS := Some (substituted_Ss rhs (nat (find_nonzero column 0))
                                 (nat (nblocks sys)) Ms Ss)\<rparr>)"
proof -
  from assms(5) have nz: "\<not> find_nonzero column 0 < 0"
    by (simp add: find_nonzero_none)
  have sys: "sys\<lparr>pM := Some Ms, pS := Some Ss\<rparr> = sys"
    using assms(1,2) by simp
  show ?thesis
    using substitute_blocks [OF assms(3) assms(4) find_nonzero_first(2,3) [OF nz], of rhs sys] nz
    by (simp add: linear_substitution_def sys Let_def)
qed


lemma length_substituted_Ms [simp]: "length (substituted_Ms column p i Ms) = length Ms"
  by (simp add: substituted_Ms_def)

lemma length_substituted_Ss [simp]: "length (substituted_Ss rhs p i Ms Ss) = length Ss"
  by (simp add: substituted_Ss_def)

lemma nth_substituted_Ms:
  "b < length Ms \<Longrightarrow> substituted_Ms column p i Ms ! b
     = (if b < i then substituted_M column p (nat (ncols (Ms ! b))) (Ms ! b) else Ms ! b)"
  by (simp add: substituted_Ms_def)

lemma nth_substituted_Ss:
  "b < length Ss \<Longrightarrow> substituted_Ss rhs p i Ms Ss ! b
     = (if b < i then substituted_S rhs p (nat (ncols (Ms ! b))) (Ms ! b) (Ss ! b) else Ss ! b)"
  by (simp add: substituted_Ss_def)

lemma shape_substituted_M [simp]:
  "nrows (substituted_M column p j M) = nrows M"
  "ncols (substituted_M column p j M) = ncols M"
  by (simp_all add: substituted_M_def)

lemma shape_substituted_S [simp]:
  "nrows (substituted_S rhs p j M S) = nrows S"
  "ncols (substituted_S rhs p j M S) = ncols S"
  "length (rows (substituted_S rhs p j M S)) = length (rows S)"
  by (simp_all add: substituted_S_def)

lemma get_bit_pivot: "get_bit_bm M p c = ONE \<longleftrightarrow> bit (pivot_row M p) c"
  by (simp add: get_bit_bm_def pivot_row_def)

lemma bit_substituted_M:
  assumes "r < length (rows M)"
  shows "bit (rows (substituted_M column p j M) ! r) c
       \<longleftrightarrow> bit (rows M ! r) c \<noteq> (c < j \<and> bit (pivot_row M p) c \<and> r < length column \<and> column ! r)"
  using assms by (auto simp add: substituted_M_def bit_simps bit_column_sum_one)

lemma get_bit_substituted_M_any:
  "get_bit_bm (substituted_M column p j M) r c
     = get_bit_bm M r c XOR
       (if c < j \<and> get_bit_bm M p c = ONE \<and> r < length (rows M) \<and> r < length column \<and> column ! r
        then ONE else ZERO)"
proof (cases "r < length (rows M)")
  case True
  then show ?thesis
    using bit_substituted_M [OF True, of column p j c]
    by (auto simp add: get_bit_bm_def get_bit_pivot [symmetric])
next
  case False
  then show ?thesis
    by (simp add: get_bit_bm_def)
qed

lemma get_bit_substituted_S_any:
  assumes "rhs = ZERO \<or> rhs = ONE"
  shows "get_bit_bm (substituted_S rhs p j M S) r c
     = get_bit_bm S r c XOR
       (if c < j \<and> get_bit_bm M p c = ONE \<and> r < length (rows S) then rhs else ZERO)"
proof (cases "r < length (rows S)")
  case True
  from assms show ?thesis
  proof
    assume "rhs = ZERO"
    then show ?thesis
      by (simp add: substituted_S_def column_sum_zero get_bit_bm_def)
  next
    assume "rhs = ONE"
    with True show ?thesis
      by (auto simp add: substituted_S_def get_bit_bm_def bit_simps bit_column_sum_one
          get_bit_pivot [symmetric])
  qed
next
  case False
  then show ?thesis
    by (simp add: get_bit_bm_def)
qed

lemma substituted_total_eq:
  "substituted_total p i Ms
     = (\<Sum>b\<leftarrow>[0..<i]. int (length (filter (\<lambda>c. get_bit_bm (Ms ! b) p c = ONE)
                                        [0..<nat (ncols (Ms ! b))])))"
  by (simp add: substituted_total_def substituted_count_def get_bit_pivot)

text \<open>
  C2.  On a system whose M blocks all have as many rows as the column vector \<open>c\<close>, and for
  \<open>rhs\<close> 0 or 1: if \<open>c\<close> is identically zero, \<open>linear_substitution\<close> returns 0 and the
  system as it was.  Otherwise, with p the first position of \<open>c\<close> that holds a 1, it succeeds,
  returns the number of columns (over all blocks) whose bit at row p is 1, adds \<open>c\<close> into
  exactly those columns of M, adds \<open>rhs\<close> into the same columns of every row of the matching
  S, and changes neither a shape nor a block past \<open>nblocks\<close>.
\<close>

theorem linear_substitution_effect:
  assumes "pM sys = Some Ms" "pS sys = Some Ss"
    "nat (nblocks sys) \<le> length Ms" "nat (nblocks sys) \<le> length Ss"
    "\<forall>b < nat (nblocks sys). length (rows (Ms ! b)) = length column"
    "rhs = ZERO \<or> rhs = ONE"
  shows "(\<not> is_non_zero_bv column \<longrightarrow> linear_substitution sys column rhs = Inr (0, sys))
    \<and> (is_non_zero_bv column \<longrightarrow>
        (\<exists>p Ms' Ss'.
           p < length column \<and> column ! p \<and> (\<forall>i < p. \<not> column ! i)
         \<and> linear_substitution sys column rhs
             = Inr ((\<Sum>b\<leftarrow>[0..<nat (nblocks sys)].
                       int (length (filter (\<lambda>c. get_bit_bm (Ms ! b) p c = ONE)
                                      [0..<nat (ncols (Ms ! b))]))),
                    sys\<lparr>pM := Some Ms', pS := Some Ss'\<rparr>)
         \<and> length Ms' = length Ms \<and> length Ss' = length Ss
         \<and> (\<forall>b. nat (nblocks sys) \<le> b \<longrightarrow> (b < length Ms \<longrightarrow> Ms' ! b = Ms ! b)
                                      \<and> (b < length Ss \<longrightarrow> Ss' ! b = Ss ! b))
         \<and> (\<forall>b < nat (nblocks sys).
               nrows (Ms' ! b) = nrows (Ms ! b) \<and> ncols (Ms' ! b) = ncols (Ms ! b)
             \<and> nrows (Ss' ! b) = nrows (Ss ! b) \<and> ncols (Ss' ! b) = ncols (Ss ! b)
             \<and> (\<forall>r c. get_bit_bm (Ms' ! b) r c
                        = get_bit_bm (Ms ! b) r c XOR
                          (if c < nat (ncols (Ms ! b)) \<and> get_bit_bm (Ms ! b) p c = ONE
                              \<and> r < length column \<and> column ! r
                           then ONE else ZERO))
             \<and> (\<forall>r c. get_bit_bm (Ss' ! b) r c
                        = get_bit_bm (Ss ! b) r c XOR
                          (if c < nat (ncols (Ms ! b)) \<and> get_bit_bm (Ms ! b) p c = ONE
                              \<and> r < length (rows (Ss ! b))
                           then rhs else ZERO)))))"
proof (intro conjI impI)
  assume "\<not> is_non_zero_bv column"
  then show "linear_substitution sys column rhs = Inr (0, sys)"
    by (rule linear_substitution_zero)
next
  assume nz: "is_non_zero_bv column"
  define p where "p = nat (find_nonzero column 0)"
  define L where "L = nat (nblocks sys)"
  define Ms' where "Ms' = substituted_Ms column p L Ms"
  define Ss' where "Ss' = substituted_Ss rhs p L Ms Ss"
  from nz have "\<not> find_nonzero column 0 < 0"
    by (simp add: find_nonzero_none)
  note first = find_nonzero_first(2-4) [OF this, folded p_def]
  have run: "linear_substitution sys column rhs
      = Inr ((\<Sum>b\<leftarrow>[0..<L]. int (length (filter (\<lambda>c. get_bit_bm (Ms ! b) p c = ONE)
                                           [0..<nat (ncols (Ms ! b))]))),
             sys\<lparr>pM := Some Ms', pS := Some Ss'\<rparr>)"
    using linear_substitution_eq [OF assms(1-4) nz, of rhs]
    by (simp add: p_def L_def Ms'_def Ss'_def substituted_total_eq)
  have beyond: "(b < length Ms \<longrightarrow> Ms' ! b = Ms ! b) \<and> (b < length Ss \<longrightarrow> Ss' ! b = Ss ! b)"
    if "L \<le> b" for b
    using that by (simp add: Ms'_def Ss'_def nth_substituted_Ms nth_substituted_Ss)
  have inside: "nrows (Ms' ! b) = nrows (Ms ! b) \<and> ncols (Ms' ! b) = ncols (Ms ! b)
      \<and> nrows (Ss' ! b) = nrows (Ss ! b) \<and> ncols (Ss' ! b) = ncols (Ss ! b)
      \<and> (\<forall>r c. get_bit_bm (Ms' ! b) r c
                 = get_bit_bm (Ms ! b) r c XOR
                   (if c < nat (ncols (Ms ! b)) \<and> get_bit_bm (Ms ! b) p c = ONE
                       \<and> r < length column \<and> column ! r
                    then ONE else ZERO))
      \<and> (\<forall>r c. get_bit_bm (Ss' ! b) r c
                 = get_bit_bm (Ss ! b) r c XOR
                   (if c < nat (ncols (Ms ! b)) \<and> get_bit_bm (Ms ! b) p c = ONE
                       \<and> r < length (rows (Ss ! b))
                    then rhs else ZERO))" if "b < L" for b
  proof -
    from that assms(3,4) have b: "b < length Ms" "b < length Ss"
      by (simp_all add: L_def)
    from that assms(5) have len: "length (rows (Ms ! b)) = length column"
      by (simp add: L_def)
    have M: "Ms' ! b = substituted_M column p (nat (ncols (Ms ! b))) (Ms ! b)"
      using b that by (simp add: Ms'_def nth_substituted_Ms)
    have S: "Ss' ! b = substituted_S rhs p (nat (ncols (Ms ! b))) (Ms ! b) (Ss ! b)"
      using b that by (simp add: Ss'_def nth_substituted_Ss)
    show ?thesis
      unfolding M S
      by (simp add: get_bit_substituted_M_any get_bit_substituted_S_any [OF assms(6)] len
          cong: conj_cong)
  qed
  show "\<exists>p Ms' Ss'.
           p < length column \<and> column ! p \<and> (\<forall>i < p. \<not> column ! i)
         \<and> linear_substitution sys column rhs
             = Inr ((\<Sum>b\<leftarrow>[0..<nat (nblocks sys)].
                       int (length (filter (\<lambda>c. get_bit_bm (Ms ! b) p c = ONE)
                                      [0..<nat (ncols (Ms ! b))]))),
                    sys\<lparr>pM := Some Ms', pS := Some Ss'\<rparr>)
         \<and> length Ms' = length Ms \<and> length Ss' = length Ss
         \<and> (\<forall>b. nat (nblocks sys) \<le> b \<longrightarrow> (b < length Ms \<longrightarrow> Ms' ! b = Ms ! b)
                                      \<and> (b < length Ss \<longrightarrow> Ss' ! b = Ss ! b))
         \<and> (\<forall>b < nat (nblocks sys).
               nrows (Ms' ! b) = nrows (Ms ! b) \<and> ncols (Ms' ! b) = ncols (Ms ! b)
             \<and> nrows (Ss' ! b) = nrows (Ss ! b) \<and> ncols (Ss' ! b) = ncols (Ss ! b)
             \<and> (\<forall>r c. get_bit_bm (Ms' ! b) r c
                        = get_bit_bm (Ms ! b) r c XOR
                          (if c < nat (ncols (Ms ! b)) \<and> get_bit_bm (Ms ! b) p c = ONE
                              \<and> r < length column \<and> column ! r
                           then ONE else ZERO))
             \<and> (\<forall>r c. get_bit_bm (Ss' ! b) r c
                        = get_bit_bm (Ss ! b) r c XOR
                          (if c < nat (ncols (Ms ! b)) \<and> get_bit_bm (Ms ! b) p c = ONE
                              \<and> r < length (rows (Ss ! b))
                           then rhs else ZERO)))"
    apply (rule exI [of _ p], rule exI [of _ Ms'], rule exI [of _ Ss'])
    using first run beyond inside
    apply (simp add: L_def Ms'_def Ss'_def)
    done
qed

lemma example_blocks:
  "b < 3 \<Longrightarrow> length (rows (example_Ms ! b)) = 3"
  by (auto simp add: example_Ms_def less_Suc_eq numeral_3_eq_3)

theorem linear_substitution_effect_witness:
  "(\<exists>p Ms' Ss'.
           p < length [False, True, True] \<and> [False, True, True] ! p \<and> (\<forall>i < p. \<not> [False, True, True] ! i)
         \<and> linear_substitution example_system [False, True, True] ONE
             = Inr ((\<Sum>b\<leftarrow>[0..<nat (nblocks example_system)].
                       int (length (filter (\<lambda>c. get_bit_bm (example_Ms ! b) p c = ONE)
                                      [0..<nat (ncols (example_Ms ! b))]))),
                    example_system\<lparr>pM := Some Ms', pS := Some Ss'\<rparr>)
         \<and> length Ms' = length example_Ms \<and> length Ss' = length example_Ss
         \<and> (\<forall>b. nat (nblocks example_system) \<le> b \<longrightarrow> (b < length example_Ms \<longrightarrow> Ms' ! b = example_Ms ! b)
                                      \<and> (b < length example_Ss \<longrightarrow> Ss' ! b = example_Ss ! b))
         \<and> (\<forall>b < nat (nblocks example_system).
               nrows (Ms' ! b) = nrows (example_Ms ! b) \<and> ncols (Ms' ! b) = ncols (example_Ms ! b)
             \<and> nrows (Ss' ! b) = nrows (example_Ss ! b) \<and> ncols (Ss' ! b) = ncols (example_Ss ! b)
             \<and> (\<forall>r c. get_bit_bm (Ms' ! b) r c
                        = get_bit_bm (example_Ms ! b) r c XOR
                          (if c < nat (ncols (example_Ms ! b)) \<and> get_bit_bm (example_Ms ! b) p c = ONE
                              \<and> r < length [False, True, True] \<and> [False, True, True] ! r
                           then ONE else ZERO))
             \<and> (\<forall>r c. get_bit_bm (Ss' ! b) r c
                        = get_bit_bm (example_Ss ! b) r c XOR
                          (if c < nat (ncols (example_Ms ! b)) \<and> get_bit_bm (example_Ms ! b) p c = ONE
                              \<and> r < length (rows (example_Ss ! b))
                           then ONE else ZERO))))"
  by (rule linear_substitution_effect [THEN conjunct2, THEN mp])
    (simp_all add: example_system_def example_Ms_def example_Ss_def is_non_zero_bv_def example_blocks [unfolded example_Ms_def])


section \<open>Removing linear blocks\<close>

lemma keeps_M_refl: "keeps_M Ms Ms"
  by (simp add: keeps_M_def)

lemma keeps_S_refl: "keeps_S Ss Ss"
  by (simp add: keeps_S_def)

lemma keeps_M_trans: "keeps_M Ms Ms1 \<Longrightarrow> keeps_M Ms1 Ms2 \<Longrightarrow> keeps_M Ms Ms2"
  by (simp add: keeps_M_def)

lemma keeps_S_trans: "keeps_S Ss Ss1 \<Longrightarrow> keeps_S Ss1 Ss2 \<Longrightarrow> keeps_S Ss Ss2"
  by (simp add: keeps_S_def)

lemma all_zero_bm_columns:
  "all_zero_bm M \<longleftrightarrow> (\<forall>c < nat (ncols M). zero_column M c)"
proof -
  have "take_bit n w = 0 \<longleftrightarrow> (\<forall>c < n. \<not> bit w c)" for w :: block and n
  proof
    assume "take_bit n w = 0"
    then have "bit (take_bit n w) c = bit (0 :: block) c" for c
      by simp
    then show "\<forall>c < n. \<not> bit w c"
      by (simp add: bit_take_bit_iff)
  next
    assume "\<forall>c < n. \<not> bit w c"
    then show "take_bit n w = 0"
      by (intro bit_eqI) (simp add: bit_take_bit_iff)
  qed
  then show ?thesis
    by (auto simp add: all_zero_bm_def zero_column_def)
qed

lemma zero_column_get_bit: "zero_column M c \<longleftrightarrow> (\<forall>r. get_bit_bm M r c = ZERO)"
  by (auto simp add: zero_column_def get_bit_bm_def all_set_conv_all_nth)

lemma zero_column_nth:
  "zero_column M c \<longleftrightarrow> (\<forall>r < length (rows M). \<not> bit (rows M ! r) c)"
  by (simp add: zero_column_def all_set_conv_all_nth)

lemma zero_column_pivot_row: "zero_column M c \<Longrightarrow> \<not> bit (pivot_row M p) c"
  by (simp add: zero_column_nth pivot_row_def)

lemma zero_column_substituted_M:
  assumes "zero_column M c"
  shows "zero_column (substituted_M column p j M) c"
  using assms zero_column_pivot_row [OF assms, of p]
  by (simp add: zero_column_nth bit_substituted_M)

lemma own_column_substituted_M:
  assumes "c < j" "p < length (rows M)" "bit (rows M ! p) c"
  shows "zero_column (substituted_M (get_column_bm M c) p j M) c"
  using assms
  by (simp add: zero_column_nth bit_substituted_M pivot_row_def get_column_bm_def)

lemma keeps_M_substituted: "keeps_M Ms (substituted_Ms column p i Ms)"
  by (simp add: keeps_M_def nth_substituted_Ms zero_column_substituted_M)

lemma keeps_S_substituted: "keeps_S Ss (substituted_Ss rhs p i Ms Ss)"
  by (simp add: keeps_S_def nth_substituted_Ss)

lemma zero_get_column:
  assumes "\<not> is_non_zero_bv (get_column_bm M c)"
  shows "zero_column M c"
  using assms by (simp add: is_non_zero_bv_def get_column_bm_def zero_column_def)

lemma linear_substitution_keeps:
  assumes "nat (nblocks sys) \<le> length Ms" "nat (nblocks sys) \<le> length Ss"
  shows "\<exists>cnt Ms' Ss'.
           linear_substitution (sys\<lparr>pM := Some Ms, pS := Some Ss\<rparr>) column rhs
             = Inr (cnt, sys\<lparr>pM := Some Ms', pS := Some Ss'\<rparr>)
         \<and> keeps_M Ms Ms' \<and> keeps_S Ss Ss'
         \<and> (\<forall>b < nat (nblocks sys). \<forall>c < nat (ncols (Ms ! b)).
               column = get_column_bm (Ms ! b) c \<longrightarrow> zero_column (Ms' ! b) c)"
proof (cases "is_non_zero_bv column")
  case False
  then have "linear_substitution (sys\<lparr>pM := Some Ms, pS := Some Ss\<rparr>) column rhs
      = Inr (0, sys\<lparr>pM := Some Ms, pS := Some Ss\<rparr>)"
    by (rule linear_substitution_zero)
  moreover have "\<forall>b < nat (nblocks sys). \<forall>c < nat (ncols (Ms ! b)).
      column = get_column_bm (Ms ! b) c \<longrightarrow> zero_column (Ms ! b) c"
    using False zero_get_column by blast
  ultimately show ?thesis
    using keeps_M_refl keeps_S_refl by blast
next
  case True
  define p where "p = nat (find_nonzero column 0)"
  define L where "L = nat (nblocks sys)"
  from True have "\<not> find_nonzero column 0 < 0"
    by (simp add: find_nonzero_none)
  note first = find_nonzero_first(2-3) [OF this, folded p_def]
  have run: "linear_substitution (sys\<lparr>pM := Some Ms, pS := Some Ss\<rparr>) column rhs
      = Inr (substituted_total p L Ms,
             sys\<lparr>pM := Some (substituted_Ms column p L Ms),
                 pS := Some (substituted_Ss rhs p L Ms Ss)\<rparr>)"
    using linear_substitution_eq [of "sys\<lparr>pM := Some Ms, pS := Some Ss\<rparr>" Ms Ss column rhs]
      assms True
    by (simp add: p_def L_def)
  have own: "zero_column (substituted_Ms column p L Ms ! b) c"
    if "b < L" "c < nat (ncols (Ms ! b))" "column = get_column_bm (Ms ! b) c" for b c
  proof -
    from that(1) assms(1) have b: "b < length Ms"
      by (simp add: L_def)
    from first that(3) have "p < length (rows (Ms ! b))" "bit (rows (Ms ! b) ! p) c"
      by (simp_all add: get_column_bm_def)
    then have "zero_column (substituted_M (get_column_bm (Ms ! b) c) p (nat (ncols (Ms ! b))) (Ms ! b)) c"
      using that(2) by (intro own_column_substituted_M)
    then show ?thesis
      using b that(1,3) by (simp add: nth_substituted_Ms)
  qed
  show ?thesis
    apply (rule exI [of _ "substituted_total p L Ms"])
    apply (rule exI [of _ "substituted_Ms column p L Ms"])
    apply (rule exI [of _ "substituted_Ss rhs p L Ms Ss"])
    using run own keeps_M_substituted keeps_S_substituted
    apply (simp add: L_def)
    done
qed


lemma remove_linear_columns:
  assumes "b < nat (nblocks sys)" "nat (nblocks sys) \<le> length Ms"
    "nat (nblocks sys) \<le> length Ss" "j \<le> nat (ncols (Ms ! b))"
  shows "\<exists>cnt' Ms' Ss'.
           for_loop [0..<j] (remove_linear_column b) (sys\<lparr>pM := Some Ms, pS := Some Ss\<rparr>, cnt)
             = Inr (sys\<lparr>pM := Some Ms', pS := Some Ss'\<rparr>, cnt')
         \<and> keeps_M Ms Ms' \<and> keeps_S Ss Ss' \<and> (\<forall>c < j. zero_column (Ms' ! b) c)"
  using assms(4)
proof (induction j)
  case 0
  have "for_loop [0..<0] (remove_linear_column b) (sys\<lparr>pM := Some Ms, pS := Some Ss\<rparr>, cnt)
      = Inr (sys\<lparr>pM := Some Ms, pS := Some Ss\<rparr>, cnt)"
    by simp
  then show ?case
    using keeps_M_refl keeps_S_refl by blast
next
  case (Suc j)
  then obtain cnt1 Ms1 Ss1 where
    run: "for_loop [0..<j] (remove_linear_column b) (sys\<lparr>pM := Some Ms, pS := Some Ss\<rparr>, cnt)
            = Inr (sys\<lparr>pM := Some Ms1, pS := Some Ss1\<rparr>, cnt1)"
    and kM: "keeps_M Ms Ms1" and kS: "keeps_S Ss Ss1"
    and zeros: "\<forall>c < j. zero_column (Ms1 ! b) c"
    by force
  from assms(1-3) have b: "b < length Ms" "b < length Ss"
    by simp_all
  from kM kS assms(2,3) have len: "nat (nblocks sys) \<le> length Ms1" "nat (nblocks sys) \<le> length Ss1"
    by (simp_all add: keeps_M_def keeps_S_def)
  from kM b have cols: "ncols (Ms1 ! b) = ncols (Ms ! b)"
    by (simp add: keeps_M_def)
  define column where "column = get_column_bm (Ms1 ! b) j"
  define rhs where "rhs = get_bit_bm (Ss1 ! b) 0 j"
  obtain cnt2 Ms2 Ss2 where
    sub: "linear_substitution (sys\<lparr>pM := Some Ms1, pS := Some Ss1\<rparr>) column rhs
            = Inr (cnt2, sys\<lparr>pM := Some Ms2, pS := Some Ss2\<rparr>)"
    and kM2: "keeps_M Ms1 Ms2" and kS2: "keeps_S Ss1 Ss2"
    and own: "\<forall>b < nat (nblocks sys). \<forall>c < nat (ncols (Ms1 ! b)).
                column = get_column_bm (Ms1 ! b) c \<longrightarrow> zero_column (Ms2 ! b) c"
    using linear_substitution_keeps [OF len, of column rhs] by blast
  have step: "remove_linear_column b j (sys\<lparr>pM := Some Ms1, pS := Some Ss1\<rparr>, cnt1)
      = Inr (sys\<lparr>pM := Some Ms2, pS := Some Ss2\<rparr>, cnt1 + cnt2)"
    using b len assms(1) sub
    by (simp add: remove_linear_column_def ptr_get_def array_get_def Let_def
        column_def [symmetric] rhs_def [symmetric])
  have "zero_column (Ms2 ! b) j"
    using own assms(1) Suc.prems cols by (simp add: column_def)
  moreover have "\<forall>c < j. zero_column (Ms2 ! b) c"
    using zeros kM2 b len assms(1) by (simp add: keeps_M_def)
  ultimately have z: "\<forall>c < Suc j. zero_column (Ms2 ! b) c"
    by (simp add: less_Suc_eq)
  have "for_loop [0..<Suc j] (remove_linear_column b) (sys\<lparr>pM := Some Ms, pS := Some Ss\<rparr>, cnt)
      = Inr (sys\<lparr>pM := Some Ms2, pS := Some Ss2\<rparr>, cnt1 + cnt2)"
    unfolding for_loop_snoc run using step by simp
  with z keeps_M_trans [OF kM kM2] keeps_S_trans [OF kS kS2] show ?case
    by blast
qed

lemma remove_linear_block_keeps:
  assumes "b < nat (nblocks sys)" "nat (nblocks sys) \<le> length Ms"
    "nat (nblocks sys) \<le> length Ss"
  shows "\<exists>cnt' Ms' Ss'.
           remove_linear_block b (sys\<lparr>pM := Some Ms, pS := Some Ss\<rparr>, cnt)
             = Inr (sys\<lparr>pM := Some Ms', pS := Some Ss'\<rparr>, cnt')
         \<and> keeps_M Ms Ms' \<and> keeps_S Ss Ss'
         \<and> (nrows (Ss ! b) = 1 \<longrightarrow> all_zero_bm (Ms' ! b))"
proof (cases "nrows (Ss ! b) = 1")
  case False
  with assms have "remove_linear_block b (sys\<lparr>pM := Some Ms, pS := Some Ss\<rparr>, cnt)
      = Inr (sys\<lparr>pM := Some Ms, pS := Some Ss\<rparr>, cnt)"
    by (simp add: remove_linear_block_def ptr_get_def array_get_def)
  with False show ?thesis
    using keeps_M_refl keeps_S_refl by blast
next
  case True
  from assms have b: "b < length Ms" "b < length Ss"
    by simp_all
  obtain cnt' Ms' Ss' where
    run: "for_loop [0..<nat (ncols (Ms ! b))] (remove_linear_column b)
            (sys\<lparr>pM := Some Ms, pS := Some Ss\<rparr>, cnt)
          = Inr (sys\<lparr>pM := Some Ms', pS := Some Ss'\<rparr>, cnt')"
    and k: "keeps_M Ms Ms'" "keeps_S Ss Ss'"
    and z: "\<forall>c < nat (ncols (Ms ! b)). zero_column (Ms' ! b) c"
    using remove_linear_columns [OF assms order_refl, of cnt] by blast
  from k(1) b have "ncols (Ms' ! b) = ncols (Ms ! b)"
    by (simp add: keeps_M_def)
  with z have "all_zero_bm (Ms' ! b)"
    by (simp add: all_zero_bm_columns)
  moreover have "remove_linear_block b (sys\<lparr>pM := Some Ms, pS := Some Ss\<rparr>, cnt)
      = Inr (sys\<lparr>pM := Some Ms', pS := Some Ss'\<rparr>, cnt')"
    using True b run by (simp add: remove_linear_block_def ptr_get_def array_get_def)
  ultimately show ?thesis
    using k by blast
qed

lemma remove_linear_blocks:
  assumes "nat (nblocks sys) \<le> length Ms" "nat (nblocks sys) \<le> length Ss"
    "i \<le> nat (nblocks sys)"
  shows "\<exists>cnt' Ms' Ss'.
           for_loop [0..<i] remove_linear_block (sys\<lparr>pM := Some Ms, pS := Some Ss\<rparr>, cnt)
             = Inr (sys\<lparr>pM := Some Ms', pS := Some Ss'\<rparr>, cnt')
         \<and> keeps_M Ms Ms' \<and> keeps_S Ss Ss'
         \<and> (\<forall>b < i. nrows (Ss ! b) = 1 \<longrightarrow> all_zero_bm (Ms' ! b))"
  using assms(3)
proof (induction i)
  case 0
  have "for_loop [0..<0] remove_linear_block (sys\<lparr>pM := Some Ms, pS := Some Ss\<rparr>, cnt)
      = Inr (sys\<lparr>pM := Some Ms, pS := Some Ss\<rparr>, cnt)"
    by simp
  then show ?case
    using keeps_M_refl keeps_S_refl by blast
next
  case (Suc i)
  then obtain cnt1 Ms1 Ss1 where
    run: "for_loop [0..<i] remove_linear_block (sys\<lparr>pM := Some Ms, pS := Some Ss\<rparr>, cnt)
            = Inr (sys\<lparr>pM := Some Ms1, pS := Some Ss1\<rparr>, cnt1)"
    and kM: "keeps_M Ms Ms1" and kS: "keeps_S Ss Ss1"
    and zeros: "\<forall>b < i. nrows (Ss ! b) = 1 \<longrightarrow> all_zero_bm (Ms1 ! b)"
    by force
  from Suc.prems have i: "i < nat (nblocks sys)"
    by simp
  from kM kS assms(1,2) have len: "nat (nblocks sys) \<le> length Ms1" "nat (nblocks sys) \<le> length Ss1"
    by (simp_all add: keeps_M_def keeps_S_def)
  obtain cnt2 Ms2 Ss2 where
    step: "remove_linear_block i (sys\<lparr>pM := Some Ms1, pS := Some Ss1\<rparr>, cnt1)
            = Inr (sys\<lparr>pM := Some Ms2, pS := Some Ss2\<rparr>, cnt2)"
    and kM2: "keeps_M Ms1 Ms2" and kS2: "keeps_S Ss1 Ss2"
    and new: "nrows (Ss1 ! i) = 1 \<longrightarrow> all_zero_bm (Ms2 ! i)"
    using remove_linear_block_keeps [OF i len, of cnt1] by blast
  have old: "all_zero_bm (Ms2 ! b)" if "b < i" "nrows (Ss ! b) = 1" for b
  proof -
    from that zeros have "all_zero_bm (Ms1 ! b)"
      by simp
    moreover from that(1) i len have "b < length Ms1"
      by simp
    ultimately show ?thesis
      using kM2 by (simp add: all_zero_bm_columns keeps_M_def)
  qed
  from kS i assms(2) have "nrows (Ss1 ! i) = nrows (Ss ! i)"
    by (simp add: keeps_S_def)
  with new old have z: "\<forall>b < Suc i. nrows (Ss ! b) = 1 \<longrightarrow> all_zero_bm (Ms2 ! b)"
    by (simp add: less_Suc_eq)
  have "for_loop [0..<Suc i] remove_linear_block (sys\<lparr>pM := Some Ms, pS := Some Ss\<rparr>, cnt)
      = Inr (sys\<lparr>pM := Some Ms2, pS := Some Ss2\<rparr>, cnt2)"
    unfolding for_loop_snoc run using step by simp
  with z keeps_M_trans [OF kM kM2] keeps_S_trans [OF kS kS2] show ?case
    by blast
qed

subsection \<open>Vectors and spans\<close>

lemma vadd_simps [simp]:
  "vadd u u = vzero" "vadd vzero u = u" "vadd u vzero = u"
  "vadd u (vadd u v) = v"
  by (auto simp add: vadd_def vzero_def fun_eq_iff)

lemma vadd_assoc: "vadd (vadd u v) w = vadd u (vadd v w)"
  by (auto simp add: vadd_def fun_eq_iff)

lemma vadd_commute: "vadd u v = vadd v u"
  by (auto simp add: vadd_def fun_eq_iff)

lemma vadd_left_commute: "vadd u (vadd v w) = vadd v (vadd u w)"
  by (auto simp add: vadd_def fun_eq_iff)

lemma span_base: "g \<in> G \<Longrightarrow> g \<in> linear_span G"
  using linear_span.add [OF _ linear_span.zero, of g G] by simp

lemma span_closed:
  assumes "u \<in> linear_span G" "v \<in> linear_span G"
  shows "vadd u v \<in> linear_span G"
  using assms(1)
proof (induction rule: linear_span.induct)
  case zero
  show ?case using assms(2) by simp
next
  case (add g u)
  then show ?case
    by (simp add: vadd_assoc linear_span.add)
qed

lemma span_sub:
  assumes "G \<subseteq> linear_span H" "v \<in> linear_span G"
  shows "v \<in> linear_span H"
  using assms(2)
proof (induction rule: linear_span.induct)
  case zero
  show ?case by (rule linear_span.zero)
next
  case (add g v)
  with assms(1) show ?case
    by (intro span_closed) auto
qed

lemma span_mono: "G \<subseteq> H \<Longrightarrow> v \<in> linear_span G \<Longrightarrow> v \<in> linear_span H"
  by (rule span_sub [of G H]) (auto intro: span_base)

lemma span_insert_cases:
  assumes "v \<in> linear_span (insert c G)"
  shows "v \<in> linear_span G \<or> (\<exists>u \<in> linear_span G. v = vadd c u)"
  using assms
proof (induction rule: linear_span.induct)
  case zero
  show ?case by (simp add: linear_span.zero)
next
  case (add g v)
  from add.IH show ?case
  proof
    assume v: "v \<in> linear_span G"
    show ?thesis
    proof (cases "g = c")
      case True
      with v show ?thesis by blast
    next
      case False
      with add.hyps(1) have "g \<in> G" by simp
      with v show ?thesis by (simp add: linear_span.add)
    qed
  next
    assume "\<exists>u \<in> linear_span G. v = vadd c u"
    then obtain u where u: "u \<in> linear_span G" "v = vadd c u"
      by blast
    show ?thesis
    proof (cases "g = c")
      case True
      with u show ?thesis by simp
    next
      case False
      with add.hyps(1) have "g \<in> G" by simp
      then have "vadd g u \<in> linear_span G"
        using u(1) by (rule linear_span.add)
      moreover have "vadd g v = vadd c (vadd g u)"
        unfolding u(2) by (rule vadd_left_commute)
      ultimately show ?thesis by blast
    qed
  qed
qed

lemma pivot_row_column_of: "bit (pivot_row M p) c \<longleftrightarrow> column_of M c p"
  by (simp add: pivot_row_def column_of_def)

lemma column_of_get_column:
  "(\<lambda>r. r < length (get_column_bm M c) \<and> get_column_bm M c ! r) = column_of M c"
  by (auto simp add: get_column_bm_def column_of_def fun_eq_iff)

lemma column_of_substituted_M:
  assumes "length (rows M) = length column"
  shows "column_of (substituted_M column p j M) c
       = (if c < j \<and> column_of M c p
          then vadd (column_of M c) (\<lambda>r. r < length column \<and> column ! r)
          else column_of M c)"
  using assms
  by (auto simp add: column_of_def vadd_def fun_eq_iff bit_substituted_M pivot_row_column_of)

lemma zero_column_of: "zero_column M c \<longleftrightarrow> column_of M c = vzero"
  by (auto simp add: zero_column_nth column_of_def vzero_def fun_eq_iff)

subsection \<open>Products\<close>

lemma substituted_M_rows_zip:
  assumes "length (rows M) = length column"
  shows "rows (substituted_M column p j M)
       = map (\<lambda>q. if snd q then fst q XOR column_sum (pivot_row M p) ONE j else fst q)
           (zip (rows M) column)"
  using assms
  by (intro nth_equalityI) (simp_all add: substituted_M_def)

lemma product_shift:
  assumes "length rs = length cs" "length cs = length xs"
  shows "foldr (XOR)
           (map fst (filter snd
              (zip (map (\<lambda>q. if snd q then fst q XOR s else fst q) (zip rs cs)) xs))) ZERO
       = foldr (XOR) (map fst (filter snd (zip rs xs))) ZERO
         XOR (if dot_bv xs cs then s else ZERO)"
  using assms
proof (induction rs cs xs rule: list_induct3)
  case Nil
  show ?case by (simp add: dot_bv_def)
next
  case (Cons r rs c cs x xs)
  then show ?case
    by (cases "dot_bv xs cs") (auto simp add: dot_bv_def xor.assoc xor.left_commute xor.commute)
qed

lemma multiply_substituted_M:
  assumes "length (rows M) = length column" "length column = length x"
  shows "multiply_bv_x_bm x (substituted_M column p j M)
       = multiply_bv_x_bm x M
         XOR (if dot_bv x column then column_sum (pivot_row M p) ONE j else ZERO)"
  unfolding multiply_bv_x_bm_def substituted_M_rows_zip [OF assms(1)]
  using assms by (rule product_shift)

lemma bit_product:
  assumes "length rs = length xs"
  shows "bit (foldr (XOR) (map fst (filter snd (zip rs xs))) ZERO) c
       \<longleftrightarrow> dot_bv xs (map (\<lambda>row. bit row c) rs)"
  using assms
proof (induction rs xs rule: list_induct2)
  case Nil
  show ?case by (simp add: dot_bv_def)
next
  case (Cons r rs x xs)
  then show ?case
    by (auto simp add: dot_bv_def bit_simps)
qed

lemma bit_multiply:
  assumes "length (rows M) = length x"
  shows "bit (multiply_bv_x_bm x M) c \<longleftrightarrow> dot_bv x (get_column_bm M c)"
  unfolding multiply_bv_x_bm_def get_column_bm_def using assms by (rule bit_product)

lemma column_sum_rhs:
  "column_sum w (if t then ONE else ZERO) j = (if t then column_sum w ONE j else ZERO)"
  by (simp add: column_sum_zero)

lemma member_substituted_S:
  assumes "v \<in> set (rows S)"
  shows "v XOR column_sum (pivot_row M p) rhs j \<in> set (rows (substituted_S rhs p j M S))"
  using assms by (simp add: substituted_S_def)

subsection \<open>One substitution keeps the reduction\<close>

lemma span_empty: "v \<in> linear_span {} \<Longrightarrow> v = vzero"
  by (induction rule: linear_span.induct) simp_all

lemma reducedI:
  assumes "keeps_M Ms0 Ms" "keeps_S Ss0 Ss"
    and "\<And>b. L \<le> b \<Longrightarrow> (b < length Ms0 \<longrightarrow> Ms ! b = Ms0 ! b)
                    \<and> (b < length Ss0 \<longrightarrow> Ss ! b = Ss0 ! b)"
    and "\<And>x. length x = n \<Longrightarrow> solves L Ms0 Ss0 x \<Longrightarrow> solves L Ms Ss x"
    and "\<And>b c. b < L \<Longrightarrow> c < nat (ncols (Ms0 ! b)) \<Longrightarrow>
               vadd (column_of (Ms ! b) c) (column_of (Ms0 ! b) c) \<in> linear_span G"
    and "\<And>p b c. p \<in> P \<Longrightarrow> b < L \<Longrightarrow> c < nat (ncols (Ms0 ! b)) \<Longrightarrow>
               \<not> column_of (Ms ! b) c p"
    and "\<And>v. v \<in> linear_span G \<Longrightarrow> (\<forall>p \<in> P. \<not> v p) \<Longrightarrow> v = vzero"
    and "G \<subseteq> linear_span (linear_columns L Ms0 Ss0)"
    and "\<And>b c. covered b c \<Longrightarrow> column_of (Ms0 ! b) c \<in> linear_span G"
  shows "reduced L n Ms0 Ss0 covered Ms Ss"
  unfolding reduced_def
proof (intro conjI)
  show "keeps_M Ms0 Ms" "keeps_S Ss0 Ss"
    by fact+
  show "\<forall>b. L \<le> b \<longrightarrow> (b < length Ms0 \<longrightarrow> Ms ! b = Ms0 ! b)
                    \<and> (b < length Ss0 \<longrightarrow> Ss ! b = Ss0 ! b)"
    using assms(3) by simp
  show "\<forall>x. length x = n \<longrightarrow> solves L Ms0 Ss0 x \<longrightarrow> solves L Ms Ss x"
    using assms(4) by simp
  show "\<exists>P G.
        (\<forall>b < L. \<forall>c < nat (ncols (Ms0 ! b)).
           vadd (column_of (Ms ! b) c) (column_of (Ms0 ! b) c) \<in> linear_span G)
      \<and> (\<forall>p \<in> P. \<forall>b < L. \<forall>c < nat (ncols (Ms0 ! b)). \<not> column_of (Ms ! b) c p)
      \<and> (\<forall>v \<in> linear_span G. (\<forall>p \<in> P. \<not> v p) \<longrightarrow> v = vzero)
      \<and> G \<subseteq> linear_span (linear_columns L Ms0 Ss0)
      \<and> (\<forall>b c. covered b c \<longrightarrow> column_of (Ms0 ! b) c \<in> linear_span G)"
  proof (intro exI [of _ P] exI [of _ G] conjI)
    show "\<forall>b < L. \<forall>c < nat (ncols (Ms0 ! b)).
           vadd (column_of (Ms ! b) c) (column_of (Ms0 ! b) c) \<in> linear_span G"
      using assms(5) by simp
    show "\<forall>p \<in> P. \<forall>b < L. \<forall>c < nat (ncols (Ms0 ! b)). \<not> column_of (Ms ! b) c p"
      using assms(6) by simp
    show "\<forall>v \<in> linear_span G. (\<forall>p \<in> P. \<not> v p) \<longrightarrow> v = vzero"
      using assms(7) by simp
    show "G \<subseteq> linear_span (linear_columns L Ms0 Ss0)"
      by fact
    show "\<forall>b c. covered b c \<longrightarrow> column_of (Ms0 ! b) c \<in> linear_span G"
      using assms(9) by simp
  qed
qed

lemma reduced_start: "reduced L n Ms0 Ss0 (\<lambda>b c. False) Ms0 Ss0"
proof (rule reducedI [where P = "{}" and G = "{}"])
  show "v = vzero" if "v \<in> linear_span {}" for v
    using that by (rule span_empty)
qed (simp_all add: keeps_M_refl keeps_S_refl linear_span.zero)

lemma reducedE:
  assumes "reduced L n Ms0 Ss0 covered Ms Ss"
  obtains P G where "keeps_M Ms0 Ms" "keeps_S Ss0 Ss"
    "\<forall>b. L \<le> b \<longrightarrow> (b < length Ms0 \<longrightarrow> Ms ! b = Ms0 ! b)
                    \<and> (b < length Ss0 \<longrightarrow> Ss ! b = Ss0 ! b)"
    "\<forall>x. length x = n \<longrightarrow> solves L Ms0 Ss0 x \<longrightarrow> solves L Ms Ss x"
    "\<forall>b < L. \<forall>c < nat (ncols (Ms0 ! b)).
           vadd (column_of (Ms ! b) c) (column_of (Ms0 ! b) c) \<in> linear_span G"
    "\<forall>p \<in> P. \<forall>b < L. \<forall>c < nat (ncols (Ms0 ! b)). \<not> column_of (Ms ! b) c p"
    "\<forall>v \<in> linear_span G. (\<forall>p \<in> P. \<not> v p) \<longrightarrow> v = vzero"
    "G \<subseteq> linear_span (linear_columns L Ms0 Ss0)"
    "\<forall>b c. covered b c \<longrightarrow> column_of (Ms0 ! b) c \<in> linear_span G"
  using assms unfolding reduced_def
  apply (elim conjE exE)
  apply (rule that)
          apply assumption+
  done

lemma substitution_step:
  assumes L: "L = nat (nblocks sys)" "L \<le> length Ms0" "L \<le> length Ss0"
    and rowsM: "\<forall>b < L. length (rows (Ms0 ! b)) = n"
    and rowsS: "\<forall>b < L. length (rows (Ss0 ! b)) = nat (nrows (Ss0 ! b))"
    and red: "reduced L n Ms0 Ss0 cov Ms Ss"
    and lin: "b0 < L" "nrows (Ss0 ! b0) = 1" "c0 < nat (ncols (Ms0 ! b0))"
  shows "\<exists>cnt Ms' Ss'.
           linear_substitution (sys\<lparr>pM := Some Ms, pS := Some Ss\<rparr>)
               (get_column_bm (Ms ! b0) c0) (get_bit_bm (Ss ! b0) 0 c0)
             = Inr (cnt, sys\<lparr>pM := Some Ms', pS := Some Ss'\<rparr>)
         \<and> reduced L n Ms0 Ss0 (\<lambda>b c. cov b c \<or> (b = b0 \<and> c = c0)) Ms' Ss'"
proof -
  define column where "column = get_column_bm (Ms ! b0) c0"
  define rhs where "rhs = get_bit_bm (Ss ! b0) 0 c0"
  define cv where "cv = column_of (Ms ! b0) c0"
  define orig where "orig = column_of (Ms0 ! b0) c0"
  define LC where "LC = linear_columns L Ms0 Ss0"
  from red obtain P G where
    kM: "keeps_M Ms0 Ms" and kS: "keeps_S Ss0 Ss"
    and beyond0: "\<forall>b. L \<le> b \<longrightarrow> (b < length Ms0 \<longrightarrow> Ms ! b = Ms0 ! b)
                    \<and> (b < length Ss0 \<longrightarrow> Ss ! b = Ss0 ! b)"
    and sol0: "\<forall>x. length x = n \<longrightarrow> solves L Ms0 Ss0 x \<longrightarrow> solves L Ms Ss x"
    and I10: "\<forall>b < L. \<forall>c < nat (ncols (Ms0 ! b)).
           vadd (column_of (Ms ! b) c) (column_of (Ms0 ! b) c) \<in> linear_span G"
    and I20: "\<forall>p \<in> P. \<forall>b < L. \<forall>c < nat (ncols (Ms0 ! b)). \<not> column_of (Ms ! b) c p"
    and I30: "\<forall>v \<in> linear_span G. (\<forall>p \<in> P. \<not> v p) \<longrightarrow> v = vzero"
    and I50: "G \<subseteq> linear_span (linear_columns L Ms0 Ss0)"
    and I40: "\<forall>b c. cov b c \<longrightarrow> column_of (Ms0 ! b) c \<in> linear_span G"
    by (rule reducedE)
  note beyond = beyond0 [rule_format] and sol = sol0 [rule_format] and I1 = I10 [rule_format]
    and I2 = I20 [rule_format] and I4 = I40 [rule_format]
  have I3: "v = vzero" if "v \<in> linear_span G" "\<forall>p \<in> P. \<not> v p" for v
    using I30 that by simp
  note I5 = I50 [folded LC_def]
  have len: "length Ms = length Ms0" "length Ss = length Ss0"
    using kM kS by (simp_all add: keeps_M_def keeps_S_def)
  have shape: "ncols (Ms ! b) = ncols (Ms0 ! b)" "length (rows (Ms ! b)) = n"
    "length (rows (Ss ! b)) = nat (nrows (Ss0 ! b))" "b < length Ms" "b < length Ss"
    if "b < L" for b
    using that kM kS L rowsM rowsS by (simp_all add: keeps_M_def keeps_S_def)
  have col_len: "length column = n"
    using shape(2) [OF lin(1)] by (simp add: column_def get_column_bm_def)
  have col_fun: "(\<lambda>r. r < length column \<and> column ! r) = cv"
    unfolding column_def cv_def by (rule column_of_get_column)
  have "orig \<in> LC"
    using lin unfolding LC_def linear_columns_def orig_def by blast
  then have orig_LC: "orig \<in> linear_span LC"
    by (rule span_base)
  have diff: "vadd cv orig \<in> linear_span G"
    unfolding cv_def orig_def using lin by (intro I1)
  have cv_LC: "cv \<in> linear_span LC"
  proof -
    from diff I5 have "vadd cv orig \<in> linear_span LC"
      by (intro span_sub [of G LC])
    from span_closed [OF this orig_LC] show ?thesis
      by (simp add: vadd_assoc)
  qed
  have orig_eq: "orig = vadd (vadd cv orig) cv"
    by (auto simp add: vadd_def fun_eq_iff)
  have cv_P: "\<not> cv p" if "p \<in> P" for p
    unfolding cv_def using that lin by (intro I2)
  show ?thesis
  proof (cases "is_non_zero_bv column")
    case False
    then have run: "linear_substitution (sys\<lparr>pM := Some Ms, pS := Some Ss\<rparr>) column rhs
        = Inr (0, sys\<lparr>pM := Some Ms, pS := Some Ss\<rparr>)"
      by (rule linear_substitution_zero)
    from False have "cv = vzero"
      unfolding cv_def column_def by (intro zero_column_of [THEN iffD1] zero_get_column)
    with diff orig_eq have "orig \<in> linear_span G"
      by simp
    with I4 have I4': "\<And>b c. cov b c \<or> (b = b0 \<and> c = c0) \<Longrightarrow>
        column_of (Ms0 ! b) c \<in> linear_span G"
      unfolding orig_def by blast
    have "reduced L n Ms0 Ss0 (\<lambda>b c. cov b c \<or> (b = b0 \<and> c = c0)) Ms Ss"
      using kM kS beyond sol I1 I2 I3 I5 [unfolded LC_def] I4'
      by (rule reducedI [where P = P and G = G])
    with run show ?thesis
      unfolding column_def rhs_def by blast
  next
    case True
    define p where "p = nat (find_nonzero column 0)"
    from True have "\<not> find_nonzero column 0 < 0"
      by (simp add: find_nonzero_none)
    note first = find_nonzero_first(2-3) [OF this, folded p_def]
    from first have cv_p: "cv p"
      unfolding col_fun [symmetric] by simp
    define Ms' where "Ms' = substituted_Ms column p L Ms"
    define Ss' where "Ss' = substituted_Ss rhs p L Ms Ss"
    have run: "linear_substitution (sys\<lparr>pM := Some Ms, pS := Some Ss\<rparr>) column rhs
        = Inr (substituted_total p L Ms, sys\<lparr>pM := Some Ms', pS := Some Ss'\<rparr>)"
      using linear_substitution_eq [of "sys\<lparr>pM := Some Ms, pS := Some Ss\<rparr>" Ms Ss column rhs]
        L len True
      by (simp add: p_def Ms'_def Ss'_def)
    have nM: "Ms' ! b = substituted_M column p (nat (ncols (Ms ! b))) (Ms ! b)"
      and nS: "Ss' ! b = substituted_S rhs p (nat (ncols (Ms ! b))) (Ms ! b) (Ss ! b)"
      if "b < L" for b
      using that shape(4,5) [OF that]
      by (simp_all add: Ms'_def Ss'_def nth_substituted_Ms nth_substituted_Ss)
    have col': "column_of (Ms' ! b) c
        = (if c < nat (ncols (Ms0 ! b)) \<and> column_of (Ms ! b) c p
           then vadd (column_of (Ms ! b) c) cv else column_of (Ms ! b) c)"
      if "b < L" for b c
      unfolding nM [OF that]
      using shape(1,2) [OF that] col_len col_fun
      by (simp add: column_of_substituted_M)
    have kM': "keeps_M Ms0 Ms'"
      unfolding Ms'_def using kM keeps_M_substituted by (rule keeps_M_trans)
    have kS': "keeps_S Ss0 Ss'"
      unfolding Ss'_def using kS keeps_S_substituted by (rule keeps_S_trans)
    have beyond': "(b < length Ms0 \<longrightarrow> Ms' ! b = Ms0 ! b) \<and> (b < length Ss0 \<longrightarrow> Ss' ! b = Ss0 ! b)"
      if "L \<le> b" for b
      using that beyond [OF that] len
      by (simp add: Ms'_def Ss'_def nth_substituted_Ms nth_substituted_Ss)
    let ?G = "insert cv G" and ?P = "insert p P"
    have sub: "v \<in> linear_span ?G" if "v \<in> linear_span G" for v
      using _ that by (rule span_mono) blast
    have cv_G: "cv \<in> linear_span ?G"
      by (rule span_base) simp
    have I1': "vadd (column_of (Ms' ! b) c) (column_of (Ms0 ! b) c) \<in> linear_span ?G"
      if "b < L" "c < nat (ncols (Ms0 ! b))" for b c
    proof (cases "column_of (Ms ! b) c p")
      case True
      have "vadd cv (vadd (column_of (Ms ! b) c) (column_of (Ms0 ! b) c)) \<in> linear_span ?G"
        by (rule linear_span.add) (simp, rule sub [OF I1 [OF that]])
      moreover have "vadd (vadd (column_of (Ms ! b) c) cv) (column_of (Ms0 ! b) c)
          = vadd cv (vadd (column_of (Ms ! b) c) (column_of (Ms0 ! b) c))"
        by (auto simp add: vadd_def fun_eq_iff)
      ultimately show ?thesis
        using True that by (simp add: col')
    next
      case False
      then show ?thesis
        using sub [OF I1 [OF that]] that by (simp add: col')
    qed
    have I2': "\<not> column_of (Ms' ! b) c q"
      if "q \<in> ?P" "b < L" "c < nat (ncols (Ms0 ! b))" for q b c
    proof (cases "q = p")
      case True
      with cv_p that show ?thesis
        by (simp add: col' vadd_def)
    next
      case False
      with that(1) have "q \<in> P"
        by simp
      from I2 [OF this that(2,3)] cv_P [OF this] that show ?thesis
        by (simp add: col' vadd_def)
    qed
    have I3': "v = vzero" if "v \<in> linear_span ?G" "\<forall>q \<in> ?P. \<not> v q" for v
      using span_insert_cases [OF that(1)]
    proof
      assume "v \<in> linear_span G"
      with that(2) show ?thesis
        by (intro I3) simp_all
    next
      assume "\<exists>u \<in> linear_span G. v = vadd cv u"
      then obtain u where u: "u \<in> linear_span G" "v = vadd cv u"
        by blast
      have "\<not> u q" if "q \<in> P" for q
        using \<open>\<forall>q \<in> ?P. \<not> v q\<close> cv_P [OF that] that unfolding u(2)
        by (simp add: vadd_def)
      with u(1) have "u = vzero"
        by (intro I3) simp_all
      with u(2) have "v = cv"
        by simp
      with cv_p that(2) show ?thesis
        by simp
    qed
    have I5': "?G \<subseteq> linear_span LC"
      using I5 cv_LC by simp
    have "orig \<in> linear_span ?G"
      using span_closed [OF sub [OF diff] cv_G] orig_eq by simp
    with I4 sub have I4': "\<And>b c. cov b c \<or> (b = b0 \<and> c = c0) \<Longrightarrow>
        column_of (Ms0 ! b) c \<in> linear_span ?G"
      unfolding orig_def by blast
    have sol': "solves L Ms' Ss' x" if x: "length x = n" "solves L Ms0 Ss0 x" for x
    proof -
      from sol [OF x] have cur: "\<And>b. b < L \<Longrightarrow>
          multiply_bv_x_bm x (Ms ! b) \<in> set (rows (Ss ! b))"
        by (simp add: solves_def)
      from shape(3) [OF lin(1)] lin(2) have one: "length (rows (Ss ! b0)) = 1"
        by simp
      then obtain row where row: "rows (Ss ! b0) = [row]"
        by (cases "rows (Ss ! b0)") simp_all
      with cur [OF lin(1)] have "multiply_bv_x_bm x (Ms ! b0) = row"
        by simp
      then have "bit row c0 \<longleftrightarrow> dot_bv x column"
        unfolding column_def
        using bit_multiply [of "Ms ! b0" x c0] shape(2) [OF lin(1)] x(1) by simp
      then have rhs: "rhs = (if dot_bv x column then ONE else ZERO)"
        by (simp add: rhs_def get_bit_bm_def row)
      have "multiply_bv_x_bm x (Ms' ! b) \<in> set (rows (Ss' ! b))" if "b < L" for b
      proof -
        have "multiply_bv_x_bm x (Ms' ! b)
            = multiply_bv_x_bm x (Ms ! b)
              XOR column_sum (pivot_row (Ms ! b) p) rhs (nat (ncols (Ms ! b)))"
          unfolding nM [OF that] rhs column_sum_rhs
          using shape(2) [OF that] col_len x(1)
          by (intro multiply_substituted_M) simp_all
        then show ?thesis
          unfolding nS [OF that] using cur [OF that]
          by (simp add: member_substituted_S)
      qed
      then show ?thesis
        by (simp add: solves_def)
    qed
    have "reduced L n Ms0 Ss0 (\<lambda>b c. cov b c \<or> (b = b0 \<and> c = c0)) Ms' Ss'"
      using kM' kS' beyond' sol' I1' I2' I3' I5' [unfolded LC_def] I4'
      by (rule reducedI [where P = ?P and G = ?G])
    with run show ?thesis
      unfolding column_def rhs_def by blast
  qed
qed

lemma for_loop_invariant:
  assumes start: "I 0 s"
    and step: "\<And>i t. i < n \<Longrightarrow> I i t \<Longrightarrow> \<exists>t'. body i t = Inr t' \<and> I (Suc i) t'"
  shows "\<exists>t. for_loop [0..<n] body s = Inr t \<and> I n t"
proof -
  have "\<exists>t. for_loop [0..<j] body s = Inr t \<and> I j t" if "j \<le> n" for j
    using that
  proof (induction j)
    case 0
    with start show ?case by simp
  next
    case (Suc j)
    then obtain t where t: "for_loop [0..<j] body s = Inr t" "I j t"
      by auto
    from Suc.prems have "j < n"
      by simp
    from step [OF this t(2)] obtain t' where "body j t = Inr t'" "I (Suc j) t'"
      by blast
    then show ?case
      unfolding for_loop_snoc t(1) by simp
  qed
  then show ?thesis
    by simp
qed

lemma reduced_shapes:
  assumes "reduced L n Ms0 Ss0 cov Ms Ss" "L \<le> length Ms0" "L \<le> length Ss0" "b < L"
  shows "b < length Ms" "b < length Ss" "ncols (Ms ! b) = ncols (Ms0 ! b)"
    "nrows (Ss ! b) = nrows (Ss0 ! b)"
  using assms by (auto simp add: reduced_def keeps_M_def keeps_S_def)

lemma reduce_columns:
  assumes L: "L = nat (nblocks sys)" "L \<le> length Ms0" "L \<le> length Ss0"
    and rowsM: "\<forall>b < L. length (rows (Ms0 ! b)) = n"
    and rowsS: "\<forall>b < L. length (rows (Ss0 ! b)) = nat (nrows (Ss0 ! b))"
    and red: "reduced L n Ms0 Ss0 cov Ms Ss"
    and lin: "b0 < L" "nrows (Ss0 ! b0) = 1"
  shows "\<exists>t. for_loop [0..<nat (ncols (Ms0 ! b0))] (remove_linear_column b0)
                (sys\<lparr>pM := Some Ms, pS := Some Ss\<rparr>, cnt) = Inr t
           \<and> (\<exists>Ms' Ss'. fst t = sys\<lparr>pM := Some Ms', pS := Some Ss'\<rparr>
                \<and> reduced L n Ms0 Ss0
                     (\<lambda>b c. cov b c \<or> (b = b0 \<and> c < nat (ncols (Ms0 ! b0)))) Ms' Ss')"
proof (rule for_loop_invariant
    [where I = "\<lambda>j t. \<exists>Ms' Ss'. fst t = sys\<lparr>pM := Some Ms', pS := Some Ss'\<rparr>
                  \<and> reduced L n Ms0 Ss0 (\<lambda>b c. cov b c \<or> (b = b0 \<and> c < j)) Ms' Ss'"])
  show "\<exists>Ms' Ss'. fst (sys\<lparr>pM := Some Ms, pS := Some Ss\<rparr>, cnt) = sys\<lparr>pM := Some Ms', pS := Some Ss'\<rparr>
          \<and> reduced L n Ms0 Ss0 (\<lambda>b c. cov b c \<or> (b = b0 \<and> c < 0)) Ms' Ss'"
    using red by auto
next
  fix j and t :: "MRHS_system \<times> int"
  assume j: "j < nat (ncols (Ms0 ! b0))"
    and "\<exists>Ms' Ss'. fst t = sys\<lparr>pM := Some Ms', pS := Some Ss'\<rparr>
            \<and> reduced L n Ms0 Ss0 (\<lambda>b c. cov b c \<or> (b = b0 \<and> c < j)) Ms' Ss'"
  then obtain Ms1 Ss1 where t1: "fst t = sys\<lparr>pM := Some Ms1, pS := Some Ss1\<rparr>"
    and red1: "reduced L n Ms0 Ss0 (\<lambda>b c. cov b c \<or> (b = b0 \<and> c < j)) Ms1 Ss1"
    by blast
  from t1 have t: "t = (sys\<lparr>pM := Some Ms1, pS := Some Ss1\<rparr>, snd t)"
    by (cases t) simp
  obtain cnt2 Ms2 Ss2 where
    sub: "linear_substitution (sys\<lparr>pM := Some Ms1, pS := Some Ss1\<rparr>)
               (get_column_bm (Ms1 ! b0) j) (get_bit_bm (Ss1 ! b0) 0 j)
             = Inr (cnt2, sys\<lparr>pM := Some Ms2, pS := Some Ss2\<rparr>)"
    and red2: "reduced L n Ms0 Ss0
                 (\<lambda>b c. (cov b c \<or> (b = b0 \<and> c < j)) \<or> (b = b0 \<and> c = j)) Ms2 Ss2"
    using substitution_step [OF L rowsM rowsS red1 lin j] by blast
  have "(\<lambda>b c. (cov b c \<or> (b = b0 \<and> c < j)) \<or> (b = b0 \<and> c = j))
      = (\<lambda>b c. cov b c \<or> (b = b0 \<and> c < Suc j))"
    by (auto simp add: fun_eq_iff)
  with red2 have red3: "reduced L n Ms0 Ss0 (\<lambda>b c. cov b c \<or> (b = b0 \<and> c < Suc j)) Ms2 Ss2"
    by simp
  have "remove_linear_column b0 j t = Inr (sys\<lparr>pM := Some Ms2, pS := Some Ss2\<rparr>, snd t + cnt2)"
    using reduced_shapes(1,2) [OF red1 L(2,3) lin(1)] sub
    by (subst t) (simp add: remove_linear_column_def ptr_get_def array_get_def Let_def)
  with red3 show "\<exists>t'. remove_linear_column b0 j t = Inr t'
      \<and> (\<exists>Ms' Ss'. fst t' = sys\<lparr>pM := Some Ms', pS := Some Ss'\<rparr>
           \<and> reduced L n Ms0 Ss0 (\<lambda>b c. cov b c \<or> (b = b0 \<and> c < Suc j)) Ms' Ss')"
    by auto
qed

lemma reduce_blocks:
  assumes L: "L = nat (nblocks sys)" "L \<le> length Ms0" "L \<le> length Ss0"
    and rowsM: "\<forall>b < L. length (rows (Ms0 ! b)) = n"
    and rowsS: "\<forall>b < L. length (rows (Ss0 ! b)) = nat (nrows (Ss0 ! b))"
  shows "\<exists>t. for_loop [0..<L] remove_linear_block (sys\<lparr>pM := Some Ms0, pS := Some Ss0\<rparr>, 0) = Inr t
           \<and> (\<exists>Ms' Ss'. fst t = sys\<lparr>pM := Some Ms', pS := Some Ss'\<rparr>
                \<and> reduced L n Ms0 Ss0
                     (\<lambda>b c. b < L \<and> nrows (Ss0 ! b) = 1 \<and> c < nat (ncols (Ms0 ! b))) Ms' Ss')"
proof (rule for_loop_invariant
    [where I = "\<lambda>i t. \<exists>Ms' Ss'. fst t = sys\<lparr>pM := Some Ms', pS := Some Ss'\<rparr>
                  \<and> reduced L n Ms0 Ss0
                       (\<lambda>b c. b < i \<and> nrows (Ss0 ! b) = 1 \<and> c < nat (ncols (Ms0 ! b))) Ms' Ss'"])
  show "\<exists>Ms' Ss'. fst (sys\<lparr>pM := Some Ms0, pS := Some Ss0\<rparr>, 0 :: int) = sys\<lparr>pM := Some Ms', pS := Some Ss'\<rparr>
          \<and> reduced L n Ms0 Ss0
               (\<lambda>b c. b < 0 \<and> nrows (Ss0 ! b) = 1 \<and> c < nat (ncols (Ms0 ! b))) Ms' Ss'"
    using reduced_start [of L n Ms0 Ss0] by auto
next
  fix i and t :: "MRHS_system \<times> int"
  assume i: "i < L"
    and "\<exists>Ms' Ss'. fst t = sys\<lparr>pM := Some Ms', pS := Some Ss'\<rparr>
            \<and> reduced L n Ms0 Ss0
                 (\<lambda>b c. b < i \<and> nrows (Ss0 ! b) = 1 \<and> c < nat (ncols (Ms0 ! b))) Ms' Ss'"
  then obtain Ms1 Ss1 where t1: "fst t = sys\<lparr>pM := Some Ms1, pS := Some Ss1\<rparr>"
    and red1: "reduced L n Ms0 Ss0
                 (\<lambda>b c. b < i \<and> nrows (Ss0 ! b) = 1 \<and> c < nat (ncols (Ms0 ! b))) Ms1 Ss1"
    by blast
  from t1 have t: "t = (sys\<lparr>pM := Some Ms1, pS := Some Ss1\<rparr>, snd t)"
    by (cases t) simp
  note sh = reduced_shapes [OF red1 L(2,3) i]
  show "\<exists>t'. remove_linear_block i t = Inr t'
      \<and> (\<exists>Ms' Ss'. fst t' = sys\<lparr>pM := Some Ms', pS := Some Ss'\<rparr>
           \<and> reduced L n Ms0 Ss0
                (\<lambda>b c. b < Suc i \<and> nrows (Ss0 ! b) = 1 \<and> c < nat (ncols (Ms0 ! b))) Ms' Ss')"
  proof (cases "nrows (Ss0 ! i) = 1")
    case False
    have "(\<lambda>b c. b < i \<and> nrows (Ss0 ! b) = 1 \<and> c < nat (ncols (Ms0 ! b)))
        = (\<lambda>b c. b < Suc i \<and> nrows (Ss0 ! b) = 1 \<and> c < nat (ncols (Ms0 ! b)))"
      using False by (auto simp add: fun_eq_iff less_Suc_eq)
    with red1 have "reduced L n Ms0 Ss0
        (\<lambda>b c. b < Suc i \<and> nrows (Ss0 ! b) = 1 \<and> c < nat (ncols (Ms0 ! b))) Ms1 Ss1"
      by simp
    moreover have "remove_linear_block i t = Inr t"
      using False sh
      by (subst (1 2) t) (simp add: remove_linear_block_def ptr_get_def array_get_def)
    ultimately show ?thesis
      using t1 by blast
  next
    case True
    obtain t' Ms2 Ss2 where
      run: "for_loop [0..<nat (ncols (Ms0 ! i))] (remove_linear_column i)
                (sys\<lparr>pM := Some Ms1, pS := Some Ss1\<rparr>, snd t) = Inr t'"
      and t': "fst t' = sys\<lparr>pM := Some Ms2, pS := Some Ss2\<rparr>"
      and red2: "reduced L n Ms0 Ss0
                     (\<lambda>b c. (b < i \<and> nrows (Ss0 ! b) = 1 \<and> c < nat (ncols (Ms0 ! b)))
                            \<or> (b = i \<and> c < nat (ncols (Ms0 ! i)))) Ms2 Ss2"
      using reduce_columns [OF L rowsM rowsS red1 i True, of "snd t"] by blast
    have "(\<lambda>b c. (b < i \<and> nrows (Ss0 ! b) = 1 \<and> c < nat (ncols (Ms0 ! b)))
                            \<or> (b = i \<and> c < nat (ncols (Ms0 ! i))))
        = (\<lambda>b c. b < Suc i \<and> nrows (Ss0 ! b) = 1 \<and> c < nat (ncols (Ms0 ! b)))"
      using True by (auto simp add: fun_eq_iff less_Suc_eq)
    with red2 have red3: "reduced L n Ms0 Ss0
        (\<lambda>b c. b < Suc i \<and> nrows (Ss0 ! b) = 1 \<and> c < nat (ncols (Ms0 ! b))) Ms2 Ss2"
      by simp
    have "remove_linear_block i t = Inr t'"
      using True sh run
      by (subst t) (simp add: remove_linear_block_def ptr_get_def array_get_def)
    with t' red3 show ?thesis
      by blast
  qed
qed

text \<open>
  C3.  On a system whose M blocks all have n rows and whose S blocks hold as many rows as
  their \<open>nrows\<close> says, \<open>remove_linear\<close> succeeds and deletes no block: \<open>nblocks\<close>, the
  arrays, every shape and every block past \<open>nblocks\<close> are as before.  Afterwards
  \<^item> every block whose S has exactly one row has an all-zero M (each column is zero in
    every row);
  \<^item> every column of M differs from the column it was by a sum of columns of linear
    blocks of the original system;
  \<^item> there is a set P of rows (the pivots) that are zero in every column of every M block,
    and no sum of columns of linear blocks other than zero is zero at all rows of P: the
    linear equations are eliminated from the whole coefficient side;
  \<^item> every vector x of length n that solves the original system solves the new one.
\<close>

theorem remove_linear_eliminates_linear_blocks:
  assumes "pM sys = Some Ms" "pS sys = Some Ss"
    "nat (nblocks sys) \<le> length Ms" "nat (nblocks sys) \<le> length Ss"
    "\<forall>b < nat (nblocks sys). length (rows (Ms ! b)) = n"
    "\<forall>b < nat (nblocks sys). length (rows (Ss ! b)) = nat (nrows (Ss ! b))"
  shows "\<exists>cnt sys' Ms' Ss'.
           remove_linear sys = Inr (cnt, sys')
         \<and> nblocks sys' = nblocks sys \<and> pM sys' = Some Ms' \<and> pS sys' = Some Ss'
         \<and> length Ms' = length Ms \<and> length Ss' = length Ss
         \<and> (\<forall>b. nat (nblocks sys) \<le> b \<longrightarrow> (b < length Ms \<longrightarrow> Ms' ! b = Ms ! b)
                                      \<and> (b < length Ss \<longrightarrow> Ss' ! b = Ss ! b))
         \<and> (\<forall>b < nat (nblocks sys).
               nrows (Ms' ! b) = nrows (Ms ! b) \<and> ncols (Ms' ! b) = ncols (Ms ! b)
             \<and> length (rows (Ms' ! b)) = length (rows (Ms ! b))
             \<and> nrows (Ss' ! b) = nrows (Ss ! b) \<and> ncols (Ss' ! b) = ncols (Ss ! b)
             \<and> length (rows (Ss' ! b)) = length (rows (Ss ! b)))
         \<and> (\<forall>b < nat (nblocks sys). nrows (Ss' ! b) = 1 \<longrightarrow>
               all_zero_bm (Ms' ! b)
             \<and> (\<forall>r c. c < nat (ncols (Ms' ! b)) \<longrightarrow> get_bit_bm (Ms' ! b) r c = ZERO))
         \<and> (\<forall>b < nat (nblocks sys). \<forall>c < nat (ncols (Ms ! b)).
               vadd (column_of (Ms' ! b) c) (column_of (Ms ! b) c)
                 \<in> linear_span (linear_columns (nat (nblocks sys)) Ms Ss))
         \<and> (\<exists>P. (\<forall>p \<in> P. \<forall>b < nat (nblocks sys). \<forall>c < nat (ncols (Ms ! b)).
                     \<not> column_of (Ms' ! b) c p)
                \<and> (\<forall>v \<in> linear_span (linear_columns (nat (nblocks sys)) Ms Ss).
                     (\<forall>p \<in> P. \<not> v p) \<longrightarrow> v = vzero))
         \<and> (\<forall>x. length x = n \<longrightarrow> solves (nat (nblocks sys)) Ms Ss x
                \<longrightarrow> solves (nat (nblocks sys)) Ms' Ss' x)"
proof -
  define L where "L = nat (nblocks sys)"
  define LC where "LC = linear_columns L Ms Ss"
  have sys: "sys\<lparr>pM := Some Ms, pS := Some Ss\<rparr> = sys"
    using assms(1,2) by simp
  note len = assms(3,4) [folded L_def]
  obtain cnt Ms' Ss' where
    run: "for_loop [0..<L] remove_linear_block (sys, 0)
            = Inr (sys\<lparr>pM := Some Ms', pS := Some Ss'\<rparr>, cnt)"
    and kM: "keeps_M Ms Ms'" and kS: "keeps_S Ss Ss'"
    and z: "\<forall>b < L. nrows (Ss ! b) = 1 \<longrightarrow> all_zero_bm (Ms' ! b)"
    using remove_linear_blocks [OF assms(3,4) order_refl, of 0] unfolding sys L_def by blast
  obtain t Ms2 Ss2 where
    run2: "for_loop [0..<L] remove_linear_block (sys, 0) = Inr t"
    and t: "fst t = sys\<lparr>pM := Some Ms2, pS := Some Ss2\<rparr>"
    and red: "reduced L n Ms Ss
                (\<lambda>b c. b < L \<and> nrows (Ss ! b) = 1 \<and> c < nat (ncols (Ms ! b))) Ms2 Ss2"
    using reduce_blocks [OF L_def len assms(5,6) [folded L_def]] unfolding sys by blast
  from run run2 t have "sys\<lparr>pM := Some Ms2, pS := Some Ss2\<rparr> = sys\<lparr>pM := Some Ms', pS := Some Ss'\<rparr>"
    by simp
  then have "pM (sys\<lparr>pM := Some Ms2, pS := Some Ss2\<rparr>) = pM (sys\<lparr>pM := Some Ms', pS := Some Ss'\<rparr>)"
    "pS (sys\<lparr>pM := Some Ms2, pS := Some Ss2\<rparr>) = pS (sys\<lparr>pM := Some Ms', pS := Some Ss'\<rparr>)"
    by simp_all
  then have same: "Ms2 = Ms'" "Ss2 = Ss'"
    by simp_all
  from red [unfolded same] obtain P G where
    beyond: "\<forall>b. L \<le> b \<longrightarrow> (b < length Ms \<longrightarrow> Ms' ! b = Ms ! b)
                    \<and> (b < length Ss \<longrightarrow> Ss' ! b = Ss ! b)"
    and sol: "\<forall>x. length x = n \<longrightarrow> solves L Ms Ss x \<longrightarrow> solves L Ms' Ss' x"
    and I1: "\<forall>b < L. \<forall>c < nat (ncols (Ms ! b)).
           vadd (column_of (Ms' ! b) c) (column_of (Ms ! b) c) \<in> linear_span G"
    and I2: "\<forall>p \<in> P. \<forall>b < L. \<forall>c < nat (ncols (Ms ! b)). \<not> column_of (Ms' ! b) c p"
    and I3: "\<forall>v \<in> linear_span G. (\<forall>p \<in> P. \<not> v p) \<longrightarrow> v = vzero"
    and I5: "G \<subseteq> linear_span LC"
    and I4: "\<forall>b c. b < L \<and> nrows (Ss ! b) = 1 \<and> c < nat (ncols (Ms ! b))
               \<longrightarrow> column_of (Ms ! b) c \<in> linear_span G"
    unfolding LC_def by (rule reducedE)
  have "LC \<subseteq> linear_span G"
    using I4 unfolding LC_def linear_columns_def by blast
  then have up: "v \<in> linear_span G" if "v \<in> linear_span LC" for v
    using that by (rule span_sub)
  have down: "v \<in> linear_span LC" if "v \<in> linear_span G" for v
    using I5 that by (rule span_sub)
  have res: "remove_linear sys = Inr (cnt, sys\<lparr>pM := Some Ms', pS := Some Ss'\<rparr>)"
    by (simp add: remove_linear_def run L_def [symmetric])
  have shapes: "nrows (Ms' ! b) = nrows (Ms ! b) \<and> ncols (Ms' ! b) = ncols (Ms ! b)
      \<and> length (rows (Ms' ! b)) = length (rows (Ms ! b))
      \<and> nrows (Ss' ! b) = nrows (Ss ! b) \<and> ncols (Ss' ! b) = ncols (Ss ! b)
      \<and> length (rows (Ss' ! b)) = length (rows (Ss ! b))"
    if "b < L" for b
    using that kM kS len by (simp add: keeps_M_def keeps_S_def)
  have zero: "all_zero_bm (Ms' ! b)
      \<and> (\<forall>r c. c < nat (ncols (Ms' ! b)) \<longrightarrow> get_bit_bm (Ms' ! b) r c = ZERO)"
    if "b < L" "nrows (Ss' ! b) = 1" for b
  proof -
    from that shapes have "nrows (Ss ! b) = 1"
      by simp
    with z that(1) have "all_zero_bm (Ms' ! b)"
      by simp
    then show ?thesis
      by (simp add: all_zero_bm_columns zero_column_get_bit)
  qed
  have S3: "vadd (column_of (Ms' ! b) c) (column_of (Ms ! b) c) \<in> linear_span LC"
    if "b < L" "c < nat (ncols (Ms ! b))" for b c
    using that I1 by (intro down) simp
  have S4: "\<exists>P. (\<forall>p \<in> P. \<forall>b < L. \<forall>c < nat (ncols (Ms ! b)). \<not> column_of (Ms' ! b) c p)
                \<and> (\<forall>v \<in> linear_span LC. (\<forall>p \<in> P. \<not> v p) \<longrightarrow> v = vzero)"
  proof (intro exI [of _ P] conjI)
    show "\<forall>p \<in> P. \<forall>b < L. \<forall>c < nat (ncols (Ms ! b)). \<not> column_of (Ms' ! b) c p"
      by (rule I2)
    show "\<forall>v \<in> linear_span LC. (\<forall>p \<in> P. \<not> v p) \<longrightarrow> v = vzero"
      using I3 up by blast
  qed
  have lens: "length Ms' = length Ms" "length Ss' = length Ss"
    using kM kS by (simp_all add: keeps_M_def keeps_S_def)
  show ?thesis
    unfolding L_def [symmetric] LC_def [symmetric]
    apply (rule exI [of _ cnt])
    apply (rule exI [of _ "sys\<lparr>pM := Some Ms', pS := Some Ss'\<rparr>"])
    apply (rule exI [of _ Ms'])
    apply (rule exI [of _ Ss'])
    apply (intro conjI)
               apply (rule res)
              apply simp
             apply simp
            apply simp
           apply (rule lens)
          apply (rule lens)
         apply (rule beyond)
        using shapes apply blast
       using zero apply blast
      using S3 apply blast
     apply (rule S4)
    apply (rule sol)
    done
qed

lemma example_S_blocks:
  "b < 3 \<Longrightarrow> length (rows (example_Ss ! b)) = nat (nrows (example_Ss ! b))"
  by (auto simp add: example_Ss_def less_Suc_eq numeral_3_eq_3)

lemma example_lengths: "length example_Ms = 3" "length example_Ss = 3"
  by (simp_all add: example_Ms_def example_Ss_def)

theorem remove_linear_eliminates_linear_blocks_witness:
  "\<exists>cnt sys' Ms' Ss'.
           remove_linear example_system = Inr (cnt, sys')
         \<and> nblocks sys' = nblocks example_system \<and> pM sys' = Some Ms' \<and> pS sys' = Some Ss'
         \<and> length Ms' = length example_Ms \<and> length Ss' = length example_Ss
         \<and> (\<forall>b. nat (nblocks example_system) \<le> b \<longrightarrow> (b < length example_Ms \<longrightarrow> Ms' ! b = example_Ms ! b)
                                      \<and> (b < length example_Ss \<longrightarrow> Ss' ! b = example_Ss ! b))
         \<and> (\<forall>b < nat (nblocks example_system).
               nrows (Ms' ! b) = nrows (example_Ms ! b) \<and> ncols (Ms' ! b) = ncols (example_Ms ! b)
             \<and> length (rows (Ms' ! b)) = length (rows (example_Ms ! b))
             \<and> nrows (Ss' ! b) = nrows (example_Ss ! b) \<and> ncols (Ss' ! b) = ncols (example_Ss ! b)
             \<and> length (rows (Ss' ! b)) = length (rows (example_Ss ! b)))
         \<and> (\<forall>b < nat (nblocks example_system). nrows (Ss' ! b) = 1 \<longrightarrow>
               all_zero_bm (Ms' ! b)
             \<and> (\<forall>r c. c < nat (ncols (Ms' ! b)) \<longrightarrow> get_bit_bm (Ms' ! b) r c = ZERO))
         \<and> (\<forall>b < nat (nblocks example_system). \<forall>c < nat (ncols (example_Ms ! b)).
               vadd (column_of (Ms' ! b) c) (column_of (example_Ms ! b) c)
                 \<in> linear_span (linear_columns (nat (nblocks example_system)) example_Ms example_Ss))
         \<and> (\<exists>P. (\<forall>p \<in> P. \<forall>b < nat (nblocks example_system). \<forall>c < nat (ncols (example_Ms ! b)).
                     \<not> column_of (Ms' ! b) c p)
                \<and> (\<forall>v \<in> linear_span (linear_columns (nat (nblocks example_system)) example_Ms example_Ss).
                     (\<forall>p \<in> P. \<not> v p) \<longrightarrow> v = vzero))
         \<and> (\<forall>x. length x = 3 \<longrightarrow> solves (nat (nblocks example_system)) example_Ms example_Ss x
                \<longrightarrow> solves (nat (nblocks example_system)) Ms' Ss' x)"
  by (rule remove_linear_eliminates_linear_blocks)
    (simp_all add: example_system_def example_blocks example_S_blocks example_lengths)

text \<open>
  The run on the example system: the column of the linear block (pivot row 0) is added to
  column 0 of the first block and to itself, and its right-hand side 1 to column 0 of the
  two S blocks; the linear block is left with zero M and zero S, and two substitutions are
  counted.
\<close>

lemma remove_linear_example:
  "remove_linear example_system
     = Inr (2, \<lparr>nblocks = 3,
                 pM = Some [\<lparr>nrows = 3, ncols = 2, rows = [0, 2, 2]\<rparr>,
                            \<lparr>nrows = 3, ncols = 1, rows = [0, 0, 0]\<rparr>,
                            \<lparr>nrows = 3, ncols = 2, rows = [0, 0, 0]\<rparr>],
                 pS = Some [\<lparr>nrows = 2, ncols = 2, rows = [1, 2]\<rparr>,
                            \<lparr>nrows = 1, ncols = 1, rows = [0]\<rparr>,
                            \<lparr>nrows = 1, ncols = 2, rows = [0]\<rparr>]\<rparr>)"
  by code_simp

section \<open>Removing empty blocks\<close>

lemma for_loop_snoc_from:
  assumes "m \<le> j"
  shows "for_loop [m..<Suc j] body s = bind_err (for_loop [m..<j] body s) (body j)"
proof -
  have "for_loop [j] body = body j"
  proof
    fix t
    show "for_loop [j] body t = body j t"
      by (cases "body j t") simp_all
  qed
  with assms show ?thesis
    by (simp add: for_loop_append)
qed

lemma length_shift_upto [simp]: "length (shift_upto b u xs) = length xs"
  by (simp add: shift_upto_def)

lemma shift_blocks:
  assumes "b < u" "u \<le> length Ms" "u \<le> length Ss"
  shows "for_loop [Suc b..<u] shift_block (Some Ms, Some Ss)
       = Inr (Some (shift_upto b u Ms), Some (shift_upto b u Ss))"
  using assms
proof (induction u)
  case 0
  then show ?case by simp
next
  case (Suc u)
  show ?case
  proof (cases "b = u")
    case True
    have "shift_upto u (Suc u) xs = xs" for xs :: "bm list"
      by (rule nth_equalityI) (auto simp add: shift_upto_def)
    with True show ?thesis
      by simp
  next
    case False
    with Suc.prems have bu: "b < u" "u < length Ms" "u < length Ss"
      by simp_all
    then have IH: "for_loop [Suc b..<u] shift_block (Some Ms, Some Ss)
       = Inr (Some (shift_upto b u Ms), Some (shift_upto b u Ss))"
      using Suc.IH by simp
    have upd: "(shift_upto b u xs)[u - 1 := shift_upto b u xs ! u] = shift_upto b (Suc u) xs"
      if "u < length xs" for xs :: "bm list"
      using that bu(1)
      by (intro nth_equalityI) (auto simp add: shift_upto_def nth_list_update)
    from bu have before: "u - Suc 0 < length Ms" "u - Suc 0 < length Ss"
      by linarith+
    from bu(1) have "Suc b \<le> u"
      by simp
    then show ?thesis
      unfolding for_loop_snoc_from [OF \<open>Suc b \<le> u\<close>] IH
      using bu before upd [of Ms] upd [of Ss]
      by (simp add: shift_block_def ptr_get_def ptr_set_def array_get_def array_set_def)
  qed
qed

lemma take_shift_upto:
  assumes "b < u" "u \<le> length xs"
  shows "take (u - 1) (shift_upto b u xs) = take b xs @ drop (Suc b) (take u xs)"
  using assms
  by (intro nth_equalityI) (auto simp add: shift_upto_def nth_append)


lemma removed_view:
  assumes "b < u" "u \<le> length xs"
  shows "take (u - 1) (shift_upto b u (xs[b := v])) = take b xs @ drop (Suc b) (take u xs)"
  using assms take_shift_upto [of b u "xs[b := v]"]
  by (simp add: take_update_swap list_update_beyond)

lemma removed_view_take:
  assumes "b < u" "u \<le> length xs"
  shows "take b (shift_upto b u (xs[b := v])) = take b xs"
proof -
  from assms(1) have "b \<le> u - 1"
    by simp
  then have "take b (shift_upto b u (xs[b := v]))
      = take b (take (u - 1) (shift_upto b u (xs[b := v])))"
    by (simp add: min_absorb1)
  also have "\<dots> = take b xs"
    unfolding removed_view [OF assms] using assms by simp
  finally show ?thesis .
qed

lemma removed_view_drop:
  assumes "b < u" "u \<le> length xs"
  shows "drop b (take (u - 1) (shift_upto b u (xs[b := v]))) = drop (Suc b) (take u xs)"
  unfolding removed_view [OF assms] using assms by simp

lemma live_head:
  assumes "b < u" "u \<le> length xs"
  shows "drop b (take u xs) = xs ! b # drop (Suc b) (take u xs)"
  using assms Cons_nth_drop_Suc [of b "take u xs"] by simp

lemma nonzero_active: "is_non_zero_bv (get_active_rows_bm M) \<longleftrightarrow> \<not> all_zero_bm M"
  by (auto simp add: is_non_zero_bv_def get_active_rows_bm_def all_zero_bm_def)

lemma remove_empty_loop_result:
  assumes "L - block = n" "block \<le> L" "L \<le> length Ms" "L \<le> length Ss"
  shows "\<exists>Ms' Ss'.
           remove_empty_loop block (int L) (Some Ms, Some Ss) ar
             = Inr (int (block + length (kept_M (drop block (take L Ms)))),
                    (Some Ms', Some Ss'),
                    active_mask ar (kept_M (drop block (take L Ms))))
         \<and> length Ms' = length Ms \<and> length Ss' = length Ss
         \<and> take (block + length (kept_M (drop block (take L Ms)))) Ms'
             = take block Ms @ kept_M (drop block (take L Ms))
         \<and> take (block + length (kept_M (drop block (take L Ms)))) Ss'
             = take block Ss @ kept_S (drop block (take L Ms)) (drop block (take L Ss))"
  using assms
proof (induction n arbitrary: block L Ms Ss ar)
  case 0
  then have "block = L"
    by simp
  then have "remove_empty_loop block (int L) (Some Ms, Some Ss) ar
      = Inr (int L, (Some Ms, Some Ss), ar)"
    by (subst remove_empty_loop.simps) simp
  with \<open>block = L\<close> show ?case
    by (simp add: kept_M_def kept_S_def active_mask_def)
next
  case (Suc n)
  then have lt: "block < L" and b: "block < length Ms" "block < length Ss"
    by simp_all
  let ?M = "Ms ! block" and ?S = "Ss ! block"
  let ?D = "drop (Suc block) (take L Ms)" and ?E = "drop (Suc block) (take L Ss)"
  have headM: "drop block (take L Ms) = ?M # ?D"
    using lt Suc.prems(3) by (rule live_head)
  have headS: "drop block (take L Ss) = ?S # ?E"
    using lt Suc.prems(4) by (rule live_head)
  show ?case
  proof (cases "all_zero_bm ?M")
    case False
    have unfold: "remove_empty_loop block (int L) (Some Ms, Some Ss) ar
        = remove_empty_loop (Suc block) (int L) (Some Ms, Some Ss)
            (or_bv ar (get_active_rows_bm ?M))"
      using lt b False
      by (subst remove_empty_loop.simps)
        (simp add: ptr_get_def array_get_def nonzero_active Let_def)
    from Suc.prems lt have "L - Suc block = n" "Suc block \<le> L"
      by simp_all
    from Suc.IH [OF this Suc.prems(3,4), of "or_bv ar (get_active_rows_bm ?M)"]
    obtain Ms' Ss' where
      run: "remove_empty_loop (Suc block) (int L) (Some Ms, Some Ss)
              (or_bv ar (get_active_rows_bm ?M))
            = Inr (int (Suc block + length (kept_M ?D)), (Some Ms', Some Ss'),
                   active_mask (or_bv ar (get_active_rows_bm ?M)) (kept_M ?D))"
      and len: "length Ms' = length Ms" "length Ss' = length Ss"
      and tM: "take (Suc block + length (kept_M ?D)) Ms' = take (Suc block) Ms @ kept_M ?D"
      and tS: "take (Suc block + length (kept_M ?D)) Ss' = take (Suc block) Ss @ kept_S ?D ?E"
      by blast
    have kM: "kept_M (drop block (take L Ms)) = ?M # kept_M ?D"
      unfolding headM using False by (simp add: kept_M_def)
    have kS: "kept_S (drop block (take L Ms)) (drop block (take L Ss)) = ?S # kept_S ?D ?E"
      unfolding headM headS using False by (simp add: kept_S_def)
    have am: "active_mask ar (kept_M (drop block (take L Ms)))
        = active_mask (or_bv ar (get_active_rows_bm ?M)) (kept_M ?D)"
      unfolding kM by (simp add: active_mask_def)
    show ?thesis
      apply (rule exI [of _ Ms'], rule exI [of _ Ss'])
      unfolding unfold run am
      using len tM tS b
      apply (simp add: kM kS take_Suc_conv_app_nth)
      done
  next
    case True
    let ?Ms2 = "shift_upto block L (Ms[block := clear_bm ?M])"
    let ?Ss2 = "shift_upto block L (Ss[block := clear_bm ?S])"
    have shift: "for_loop [Suc block..<L] shift_block
          (Some (Ms[block := clear_bm ?M]), Some (Ss[block := clear_bm ?S]))
        = Inr (Some ?Ms2, Some ?Ss2)"
      using lt Suc.prems(3,4) by (intro shift_blocks) simp_all
    from lt have L1: "int L - 1 = int (L - 1)"
      by simp
    have "remove_empty_loop block (int L) (Some Ms, Some Ss) ar
        = remove_empty_loop block (int L - 1) (Some ?Ms2, Some ?Ss2) ar"
      using lt b True shift
      by (subst remove_empty_loop.simps)
        (simp add: ptr_get_def ptr_set_def array_get_def array_set_def nonzero_active Let_def)
    then have unfold: "remove_empty_loop block (int L) (Some Ms, Some Ss) ar
        = remove_empty_loop block (int (L - 1)) (Some ?Ms2, Some ?Ss2) ar"
      unfolding L1 .
    from Suc.prems lt have "L - 1 - block = n" "block \<le> L - 1"
      "L - 1 \<le> length ?Ms2" "L - 1 \<le> length ?Ss2"
      by simp_all
    from Suc.IH [OF this, of ar]
    obtain Ms' Ss' where
      run: "remove_empty_loop block (int (L - 1)) (Some ?Ms2, Some ?Ss2) ar
            = Inr (int (block + length (kept_M (drop block (take (L - 1) ?Ms2)))),
                   (Some Ms', Some Ss'),
                   active_mask ar (kept_M (drop block (take (L - 1) ?Ms2))))"
      and len: "length Ms' = length ?Ms2" "length Ss' = length ?Ss2"
      and tM: "take (block + length (kept_M (drop block (take (L - 1) ?Ms2)))) Ms'
                = take block ?Ms2 @ kept_M (drop block (take (L - 1) ?Ms2))"
      and tS: "take (block + length (kept_M (drop block (take (L - 1) ?Ms2)))) Ss'
                = take block ?Ss2 @ kept_S (drop block (take (L - 1) ?Ms2))
                                      (drop block (take (L - 1) ?Ss2))"
      by blast
    have vM: "drop block (take (L - 1) ?Ms2) = ?D" "take block ?Ms2 = take block Ms"
      using lt Suc.prems(3) by (rule removed_view_drop, rule removed_view_take)
    have vS: "drop block (take (L - 1) ?Ss2) = ?E" "take block ?Ss2 = take block Ss"
      using lt Suc.prems(4) by (rule removed_view_drop, rule removed_view_take)
    have kM: "kept_M (drop block (take L Ms)) = kept_M ?D"
      unfolding headM using True by (simp add: kept_M_def)
    have kS: "kept_S (drop block (take L Ms)) (drop block (take L Ss)) = kept_S ?D ?E"
      unfolding headM headS using True by (simp add: kept_S_def)
    note run' = run [unfolded vM vS] and tM' = tM [unfolded vM vS] and tS' = tS [unfolded vM vS]
    from len have len': "length Ms' = length Ms" "length Ss' = length Ss"
      by simp_all
    show ?thesis
      apply (rule exI [of _ Ms'], rule exI [of _ Ss'])
      unfolding unfold kM kS run'
      using len' tM' tS'
      apply simp
      done
  qed
qed

lemma compact_blocks:
  assumes "j \<le> length Ms"
  shows "for_loop [0..<j] (compact_block keep) (Some Ms)
       = Inr (Some (map (\<lambda>M. remove_rows_bm M keep) (take j Ms) @ drop j Ms))"
  using assms
proof (induction j)
  case 0
  show ?case by simp
next
  case (Suc j)
  then have j: "j < length Ms"
    by simp
  have IH: "for_loop [0..<j] (compact_block keep) (Some Ms)
       = Inr (Some (map (\<lambda>M. remove_rows_bm M keep) (take j Ms) @ drop j Ms))"
    using Suc by simp
  have upd: "(xs @ drop j Ms)[j := v] = xs @ v # drop (Suc j) Ms"
    if "length xs = j" for xs v
    using that j by (simp add: list_update_append Cons_nth_drop_Suc [symmetric])
  show ?case
    unfolding for_loop_snoc IH using j
    by (simp add: compact_block_def ptr_get_def ptr_set_def array_get_def array_set_def
        nth_append upd take_Suc_conv_app_nth)
qed

lemma length_or_bv [simp]: "length (or_bv a b) = length a"
  by (simp add: or_bv_def)

lemma nth_or_bv: "i < length a \<Longrightarrow> or_bv a b ! i \<longleftrightarrow> a ! i \<or> (i < length b \<and> b ! i)"
  by (simp add: or_bv_def)

lemma length_active_mask [simp]: "length (active_mask a Ms) = length a"
  by (induction Ms arbitrary: a) (simp_all add: active_mask_def)

lemma active_mask_mono: "i < length a \<Longrightarrow> a ! i \<Longrightarrow> active_mask a Ms ! i"
proof (induction Ms arbitrary: a)
  case Nil
  then show ?case by (simp add: active_mask_def)
next
  case (Cons M Ms)
  have "active_mask a (M # Ms) = active_mask (or_bv a (get_active_rows_bm M)) Ms"
    by (simp add: active_mask_def)
  with Cons show ?case
    by (simp add: nth_or_bv)
qed

lemma active_mask_covers:
  assumes "M \<in> set Ms" "i < length a" "i < length (rows M)"
    "take_bit (nat (ncols M)) (rows M ! i) \<noteq> 0"
  shows "active_mask a Ms ! i"
  using assms(1,2)
proof (induction Ms arbitrary: a)
  case Nil
  then show ?case by simp
next
  case (Cons N Ns)
  have step: "active_mask a (N # Ns) = active_mask (or_bv a (get_active_rows_bm N)) Ns"
    by (simp add: active_mask_def)
  show ?case
  proof (cases "M = N")
    case True
    with assms(3,4) Cons.prems(2) have "or_bv a (get_active_rows_bm N) ! i"
      by (simp add: nth_or_bv get_active_rows_bm_def)
    with Cons.prems(2) show ?thesis
      unfolding step by (intro active_mask_mono) simp_all
  next
    case False
    with Cons.prems have "M \<in> set Ns"
      by simp
    with Cons.prems(2) show ?thesis
      unfolding step by (intro Cons.IH) simp_all
  qed
qed

lemma remove_rows_keeps_nonzero:
  assumes "\<not> all_zero_bm M"
    "\<forall>i < length (rows M). take_bit (nat (ncols M)) (rows M ! i) \<noteq> 0
        \<longrightarrow> i < length keep \<and> keep ! i"
  shows "\<not> all_zero_bm (remove_rows_bm M keep)"
proof -
  from assms(1) obtain i where i: "i < length (rows M)"
    and nz: "take_bit (nat (ncols M)) (rows M ! i) \<noteq> 0"
    by (auto simp add: all_zero_bm_def in_set_conv_nth)
  with assms(2) have k: "i < length keep" "keep ! i"
    by simp_all
  from i k have "(rows M ! i, keep ! i) \<in> set (zip (rows M) keep)"
    by (auto simp add: set_zip)
  with k(2) have "rows M ! i \<in> set (map fst (filter snd (zip (rows M) keep)))"
    by force
  then have mem: "rows M ! i \<in> set (rows (remove_rows_bm M keep))"
    by (simp add: remove_rows_bm_def Let_def)
  have "ncols (remove_rows_bm M keep) = ncols M"
    by (simp add: remove_rows_bm_def Let_def)
  with mem nz show ?thesis
    unfolding all_zero_bm_def by metis
qed

lemma length_kept_M: "length (kept_M Ms) = length Ms - length (filter all_zero_bm Ms)"
  using sum_length_filter_compl [of all_zero_bm Ms] by (simp add: kept_M_def)

text \<open>
  C4.  On a system with at least one block whose M blocks all have the row count of the
  first one, \<open>remove_empty\<close> succeeds and returns the number of all-zero M blocks;
  \<open>nblocks\<close> goes down by that number (by exactly 1 when one block is all-zero); the
  surviving S blocks are those at the positions of the M blocks that are not all-zero,
  in their order; the surviving M blocks are those M blocks, in their order, with the
  inactive rows removed; and no surviving M block is all-zero.
\<close>

theorem remove_empty_drops_empty_blocks:
  assumes "1 \<le> nblocks sys" "pM sys = Some Ms" "pS sys = Some Ss"
    "nat (nblocks sys) \<le> length Ms" "nat (nblocks sys) \<le> length Ss"
    "\<forall>b < nat (nblocks sys). length (rows (Ms ! b)) = nat (nrows (Ms ! 0))"
  shows "\<exists>sys' Ms' Ss'.
           remove_empty sys
             = Inr (int (length (filter all_zero_bm (take (nat (nblocks sys)) Ms))), sys')
         \<and> nblocks sys'
             = nblocks sys - int (length (filter all_zero_bm (take (nat (nblocks sys)) Ms)))
         \<and> pM sys' = Some Ms' \<and> pS sys' = Some Ss'
         \<and> take (nat (nblocks sys')) Ms'
             = map (\<lambda>M. remove_rows_bm M
                          (active_mask (create_bv (nrows (Ms ! 0)))
                             (kept_M (take (nat (nblocks sys)) Ms))))
                 (kept_M (take (nat (nblocks sys)) Ms))
         \<and> take (nat (nblocks sys')) Ss'
             = kept_S (take (nat (nblocks sys)) Ms) (take (nat (nblocks sys)) Ss)
         \<and> (\<forall>M \<in> set (take (nat (nblocks sys')) Ms'). \<not> all_zero_bm M)"
proof -
  define L where "L = nat (nblocks sys)"
  define live where "live = take L Ms"
  define keep where "keep = active_mask (create_bv (nrows (Ms ! 0))) (kept_M live)"
  define L' where "L' = length (kept_M live)"
  define gone where "gone = length (filter all_zero_bm live)"
  from assms(1) have nb: "nblocks sys = int L" and pos: "0 < L"
    by (simp_all add: L_def)
  from assms(4,5) have len: "L \<le> length Ms" "L \<le> length Ss"
    by (simp_all add: L_def)
  have "length live = L"
    using len by (simp add: live_def)
  then have count: "L' = L - gone" "gone \<le> L"
    using length_kept_M [of live] length_filter_le [of all_zero_bm live]
    by (simp_all add: L'_def gone_def)
  obtain Ms1 Ss1 where
    loop: "remove_empty_loop 0 (int L) (Some Ms, Some Ss) (create_bv (nrows (Ms ! 0)))
            = Inr (int L', (Some Ms1, Some Ss1), keep)"
    and len1: "length Ms1 = length Ms" "length Ss1 = length Ss"
    and tM: "take L' Ms1 = kept_M live" and tS: "take L' Ss1 = kept_S live (take L Ss)"
    using remove_empty_loop_result [OF refl le0 len, of "create_bv (nrows (Ms ! 0))"]
    by (auto simp add: L'_def live_def keep_def)
  define Ms2 where "Ms2 = map (\<lambda>M. remove_rows_bm M keep) (take L' Ms1) @ drop L' Ms1"
  from count len len1 have L'len: "L' \<le> length Ms1"
    by simp
  then have compact: "for_loop [0..<L'] (compact_block keep) (Some Ms1) = Inr (Some Ms2)"
    unfolding Ms2_def by (rule compact_blocks)
  from pos len have first: "0 < length Ms"
    by linarith
  have res: "remove_empty sys
      = Inr (int L - int L', \<lparr>nblocks = int L', pM = Some Ms2, pS = Some Ss1\<rparr>)"
    using first loop compact
    by (simp add: remove_empty_def assms(2,3) nb ptr_get_def array_get_def Let_def)
  have ret: "int L - int L' = int gone"
    using count by simp
  have tM2: "take L' Ms2 = map (\<lambda>M. remove_rows_bm M keep) (kept_M live)"
    using L'len by (simp add: Ms2_def tM L'_def [symmetric])
  have nonzero: "\<not> all_zero_bm (remove_rows_bm M keep)" if "M \<in> set (kept_M live)" for M
  proof -
    from that have ne: "\<not> all_zero_bm M" and "M \<in> set live"
      by (simp_all add: kept_M_def)
    then obtain b where "b < L" "M = Ms ! b"
      using len by (auto simp add: live_def in_set_conv_nth)
    with assms(6) have rowsM: "length (rows M) = nat (nrows (Ms ! 0))"
      by (simp add: L_def)
    have "i < length keep \<and> keep ! i"
      if "i < length (rows M)" "take_bit (nat (ncols M)) (rows M ! i) \<noteq> 0" for i
    proof -
      from that(1) rowsM have "i < length (create_bv (nrows (Ms ! 0)))"
        by (simp add: create_bv_def)
      then show ?thesis
        using active_mask_covers [OF \<open>M \<in> set (kept_M live)\<close> _ that]
        by (simp add: keep_def)
    qed
    with ne show ?thesis
      by (intro remove_rows_keeps_nonzero) simp_all
  qed
  have all: "\<forall>M \<in> set (take L' Ms2). \<not> all_zero_bm M"
    unfolding tM2 using nonzero by auto
  show ?thesis
    apply (rule exI [of _ "\<lparr>nblocks = int L', pM = Some Ms2, pS = Some Ss1\<rparr>"])
    apply (rule exI [of _ Ms2], rule exI [of _ Ss1])
    unfolding res
    using ret tM2 tS all nb
    apply (simp add: L_def [symmetric] live_def [symmetric] gone_def [symmetric]
        keep_def [symmetric])
    done
qed

theorem remove_empty_drops_empty_blocks_witness:
  "\<exists>sys' Ms' Ss'.
           remove_empty example_system
             = Inr (int (length (filter all_zero_bm (take (nat (nblocks example_system)) example_Ms))), sys')
         \<and> nblocks sys'
             = nblocks example_system - int (length (filter all_zero_bm (take (nat (nblocks example_system)) example_Ms)))
         \<and> pM sys' = Some Ms' \<and> pS sys' = Some Ss'
         \<and> take (nat (nblocks sys')) Ms'
             = map (\<lambda>M. remove_rows_bm M
                          (active_mask (create_bv (nrows (example_Ms ! 0)))
                             (kept_M (take (nat (nblocks example_system)) example_Ms))))
                 (kept_M (take (nat (nblocks example_system)) example_Ms))
         \<and> take (nat (nblocks sys')) Ss'
             = kept_S (take (nat (nblocks example_system)) example_Ms) (take (nat (nblocks example_system)) example_Ss)
         \<and> (\<forall>M \<in> set (take (nat (nblocks sys')) Ms'). \<not> all_zero_bm M)"
  by (rule remove_empty_drops_empty_blocks)
    (simp_all add: example_system_def example_Ms_def example_Ss_def example_blocks [unfolded example_Ms_def])

end
